theory Spec2Isabelle
  imports Complex_Main
begin

section \<open>JavaScript values of the application\<close>

text \<open>
  A JavaScript string is a sequence of UTF-16 code units; \<open>length\<close> counts code units,
  as \<^verbatim>\<open>String.prototype.length\<close> does. A code unit is a natural number below 65536;
  the definitions below are total on every list of naturals.
\<close>

type_synonym jsstring = "nat list"

definition js :: "string \<Rightarrow> jsstring" where
  "js s = map of_char s"

text \<open>
  A finite JavaScript number is modelled by the decimal digits that
  \<^verbatim>\<open>Number::toString\<close> works on: a sign, the significant digits \<open>s\<close> (most significant
  first) and the position \<open>n\<close> of the decimal point, for the value
  \<open>s * 10 ^ (n - k)\<close> with \<open>k\<close> digits. Zero has no digit. \<^verbatim>\<open>NaN\<close> and the infinities
  are not numbers of this type; where the source can meet \<^verbatim>\<open>NaN\<close> the model says so
  with an \<open>option\<close>. The decimal names the double nearest to it (\<open>double_of\<close>
  below); where the source calculates with numbers, in the viewport fitter, the model
  calculates with doubles and rounds as IEEE 754 does.
\<close>

datatype number = Number (negative: bool) (digits: "nat list") (point: int)

definition nat_of_digits :: "nat list \<Rightarrow> nat" where
  "nat_of_digits ds = fold (\<lambda>d acc. 10 * acc + d) ds 0"

definition num_val :: "number \<Rightarrow> real" where
  "num_val x =
     (let s = real (nat_of_digits (digits x));
          e = point x - int (length (digits x));
          m = (if 0 \<le> e then s * 10 ^ nat e else s / 10 ^ nat (- e))
      in if negative x then - m else m)"

text \<open>\<^verbatim>\<open>String.prototype.trim\<close>: white space and line terminators of ECMAScript.\<close>

definition is_js_whitespace :: "nat \<Rightarrow> bool" where
  "is_js_whitespace u \<longleftrightarrow>
     u \<in> {0x09, 0x0A, 0x0B, 0x0C, 0x0D, 0x20, 0xA0, 0x1680, 0x2028, 0x2029, 0x202F,
          0x205F, 0x3000, 0xFEFF} \<or> (0x2000 \<le> u \<and> u \<le> 0x200A)"

definition trim :: "jsstring \<Rightarrow> jsstring" where
  "trim s = rev (dropWhile is_js_whitespace (rev (dropWhile is_js_whitespace s)))"

section \<open>The location store (App.tsx)\<close>

record MapLocation =
  lat :: number
  lng :: number
  name :: jsstring
  description :: "jsstring option"

text \<open>The form state \<^verbatim>\<open>newLocation\<close>: four text fields.\<close>

record NewLocation =
  lat_input :: jsstring
  lng_input :: jsstring
  name_input :: jsstring
  description_input :: jsstring

record App =
  mapLocations :: "MapLocation list"
  newLocation :: NewLocation
  showAddLocationForm :: bool
  locationsShareUrl :: jsstring
  isMapAddingMode :: bool
  targetLocation :: "(number \<times> number) option"
  openPopupLocationIndex :: "int option"
  isMobile :: bool

text \<open>The blocking alerts the handlers raise.\<close>

datatype alert =
    EnterValidCoordinatesAndName
  | EnterValidCoordinateRange
  | InvalidLocationsDataInUrl
  | ShareUrlCopied
  | FailedToCopyUrl

definition emptyNewLocation :: NewLocation where
  "emptyNewLocation = \<lparr>lat_input = [], lng_input = [], name_input = [], description_input = []\<rparr>"

text \<open>The initial state of the component (lines 25-69): the five seeded locations.\<close>

definition defaultLocations :: "MapLocation list" where
  "defaultLocations =
     [\<lparr>lat = Number False [3,6,3,9,3,2] 2, lng = Number False [2,5,4,6,1,5] 2,
       name = js ''Santorini, Greece'',
       description = Some (js ''Beautiful Greek island with stunning sunsets'')\<rparr>,
      \<lparr>lat = Number False [4,6,5,1,9,7] 2, lng = Number False [6,6,3,2,3] 1,
       name = js ''Swiss Alps, Switzerland'',
       description = Some (js ''Breathtaking alpine landscapes and hiking trails'')\<rparr>,
      \<lparr>lat = Number False [4,8,8,5,6,6] 2, lng = Number False [2,3,5,2,2] 1,
       name = js ''Paris, France'',
       description = Some (js ''The City of Light with iconic landmarks'')\<rparr>,
      \<lparr>lat = Number False [3,5,6,7,6,2] 2, lng = Number False [1,3,9,6,5,0,3] 3,
       name = js ''Tokyo, Japan'',
       description = Some (js ''Modern metropolis with rich culture'')\<rparr>,
      \<lparr>lat = Number True [3,3,8,6,8,8] 2, lng = Number False [1,5,1,2,0,9,3] 3,
       name = js ''Sydney, Australia'',
       description = Some (js ''Harbor city with beautiful beaches'')\<rparr>]"

definition initialApp :: "bool \<Rightarrow> App" where
  "initialApp mobile =
     \<lparr>mapLocations = defaultLocations, newLocation = emptyNewLocation,
      showAddLocationForm = False, locationsShareUrl = [], isMapAddingMode = False,
      targetLocation = None, openPopupLocationIndex = None, isMobile = mobile\<rparr>"

text \<open>
  \<^verbatim>\<open>addLocation\<close> (lines 102-128). \<^verbatim>\<open>parseFloat\<close> is the platform's; it is a parameter,
  with \<open>None\<close> for \<^verbatim>\<open>NaN\<close>. The handler returns the alert it raised, if any, and the
  next state.
\<close>

definition addLocation :: "(jsstring \<Rightarrow> number option) \<Rightarrow> App \<Rightarrow> alert option \<times> App" where
  "addLocation parseFloat st =
     (case (parseFloat (lat_input (newLocation st)), parseFloat (lng_input (newLocation st))) of
        (Some lt, Some lg) \<Rightarrow>
          if trim (name_input (newLocation st)) = [] then (Some EnterValidCoordinatesAndName, st)
          else if num_val lt < - 90 \<or> num_val lt > 90 \<or> num_val lg < - 180 \<or> num_val lg > 180
          then (Some EnterValidCoordinateRange, st)
          else
            let location = \<lparr>lat = lt, lng = lg, name = trim (name_input (newLocation st)),
                  description =
                    (if trim (description_input (newLocation st)) = [] then None
                     else Some (trim (description_input (newLocation st))))\<rparr>
            in (None, st\<lparr>mapLocations := mapLocations st @ [location],
                           newLocation := emptyNewLocation,
                           showAddLocationForm := False\<rparr>)
      | _ \<Rightarrow> (Some EnterValidCoordinatesAndName, st))"

text \<open>\<^verbatim>\<open>deleteLocation\<close> (lines 130-133): keep the elements whose position differs.\<close>

definition deleteLocation :: "int \<Rightarrow> App \<Rightarrow> App" where
  "deleteLocation index st =
     st\<lparr>mapLocations :=
          map snd (filter (\<lambda>(i, _). int i \<noteq> index) (enumerate 0 (mapLocations st)))\<rparr>"

text \<open>\<^verbatim>\<open>handleMapAddLocation\<close> (lines 173-184).\<close>

definition handleMapAddLocation :: "number \<Rightarrow> number \<Rightarrow> jsstring \<times> jsstring \<Rightarrow> App \<Rightarrow> App" where
  "handleMapAddLocation lt lg locationData st =
     (let location = \<lparr>lat = lt, lng = lg, name = fst locationData,
            description = (if snd locationData = [] then None else Some (snd locationData))\<rparr>
      in st\<lparr>mapLocations := mapLocations st @ [location], isMapAddingMode := False\<rparr>)"

text \<open>
  The specification's \<open>indexOf(r)\<close>: the index of the first occurrence of \<open>r\<close>, and
  \<open>-1\<close> when there is none. The source has no such function; it is the claim's.
\<close>

fun indexOf :: "'a list \<Rightarrow> 'a \<Rightarrow> int" where
  "indexOf [] r = - 1"
| "indexOf (x # xs) r =
     (if x = r then 0 else (let i = indexOf xs r in if i < 0 then - 1 else i + 1))"

text \<open>
  The data model's constraints on a record (section 3 of the specification): latitude in
  [-90, 90], longitude in [-180, 180], a name that is not empty.
\<close>

definition valid_location :: "MapLocation \<Rightarrow> bool" where
  "valid_location l \<longleftrightarrow>
     - 90 \<le> num_val (lat l) \<and> num_val (lat l) \<le> 90 \<and>
     - 180 \<le> num_val (lng l) \<and> num_val (lng l) \<le> 180 \<and> name l \<noteq> []"

definition store_valid :: "App \<Rightarrow> bool" where
  "store_valid st \<longleftrightarrow> list_all valid_location (mapLocations st)"

section \<open>IEEE 754 binary64 numbers\<close>

text \<open>
  The Number type of ECMAScript: \<open>Finite s m e\<close> is the double of sign \<open>s\<close> (true for
  negative) and magnitude \<open>m * 2 ^ e\<close>, with \<open>m < 2 ^ 53\<close> and \<open>- 1074 \<le> e \<le> 971\<close>;
  a normal number has \<open>2 ^ 52 \<le> m\<close>, a subnormal one has \<open>e = - 1074\<close>, and the two zeros
  are \<open>Finite False 0 0\<close> and \<open>Finite True 0 0\<close>. Every operation below returns doubles
  in this form, so that equal doubles are equal terms.

  \<open>round_ratio s p q\<close> is the double nearest to the ratio \<open>p / q\<close> of two naturals, with
  sign \<open>s\<close>: the ratio is scaled to an integer of 53 bits (fewer in the subnormal range),
  rounded to the nearest integer with ties to the even one, and a rounded magnitude of
  \<open>2 ^ 1024\<close> or more is the infinity. \<open>decimal s n e\<close> is the double that the decimal
  literal \<open>n * 10 ^ e\<close> denotes.
\<close>

datatype double = NaN | Infinity bool | Finite bool nat int

fun bit_length :: "nat \<Rightarrow> nat" where
  "bit_length n = (if n = 0 then 0 else Suc (bit_length (n div 2)))"

declare bit_length.simps [simp del]

definition floor_log2 :: "nat \<Rightarrow> nat \<Rightarrow> int" where
  "floor_log2 p q =
     (let l = int (bit_length p) - int (bit_length q)
      in if q * 2 ^ nat l \<le> p * 2 ^ nat (- l) then l else l - 1)"

definition round_half_even :: "nat \<Rightarrow> nat \<Rightarrow> nat" where
  "round_half_even n d =
     (let q = n div d; r = n mod d
      in if 2 * r < d then q else if d < 2 * r then q + 1 else if even q then q else q + 1)"

definition round_ratio :: "bool \<Rightarrow> nat \<Rightarrow> nat \<Rightarrow> double" where
  "round_ratio s p q =
     (if p = 0 then Finite s 0 0
      else let e = max (floor_log2 p q - 52) (- 1074);
               m = round_half_even (p * 2 ^ nat (- e)) (q * 2 ^ nat e)
           in if m = 0 then Finite s 0 0
              else if m = 2 ^ 53 then (if 971 < e + 1 then Infinity s else Finite s (2 ^ 52) (e + 1))
              else if 971 < e then Infinity s
              else Finite s m e)"

definition decimal :: "bool \<Rightarrow> nat \<Rightarrow> int \<Rightarrow> double" where
  "decimal s n e = round_ratio s (n * 10 ^ nat e) (10 ^ nat (- e))"

definition double_of :: "number \<Rightarrow> double" where
  "double_of x = decimal (negative x) (nat_of_digits (digits x)) (point x - int (length (digits x)))"

text \<open>
  Comparison (\<^verbatim>\<open><\<close> and \<^verbatim>\<open><=\<close>): false whenever an operand is \<^verbatim>\<open>NaN\<close>; the two zeros are
  equal.
\<close>

definition finite_val :: "bool \<Rightarrow> nat \<Rightarrow> int \<Rightarrow> real" where
  "finite_val s m e = (if s then - 1 else 1) * real m * 2 powi e"

fun dlt :: "double \<Rightarrow> double \<Rightarrow> bool" where
  "dlt (Finite s m e) (Finite s' m' e') \<longleftrightarrow> finite_val s m e < finite_val s' m' e'"
| "dlt (Finite s m e) (Infinity s') \<longleftrightarrow> \<not> s'"
| "dlt (Infinity s) (Finite s' m' e') \<longleftrightarrow> s"
| "dlt (Infinity s) (Infinity s') \<longleftrightarrow> s \<and> \<not> s'"
| "dlt NaN y \<longleftrightarrow> False"
| "dlt x NaN \<longleftrightarrow> False"

fun dle :: "double \<Rightarrow> double \<Rightarrow> bool" where
  "dle (Finite s m e) (Finite s' m' e') \<longleftrightarrow> finite_val s m e \<le> finite_val s' m' e'"
| "dle (Finite s m e) (Infinity s') \<longleftrightarrow> \<not> s'"
| "dle (Infinity s) (Finite s' m' e') \<longleftrightarrow> s"
| "dle (Infinity s) (Infinity s') \<longleftrightarrow> s \<or> \<not> s'"
| "dle NaN y \<longleftrightarrow> False"
| "dle x NaN \<longleftrightarrow> False"

text \<open>
  \<^verbatim>\<open>Number::add\<close>, \<^verbatim>\<open>Number::subtract\<close> and \<^verbatim>\<open>Number::divide\<close>: the exact result, rounded.
  A sum that is exactly zero is \<open>-0\<close> only when both operands are negative.
\<close>

definition signed :: "bool \<Rightarrow> nat \<Rightarrow> int" where
  "signed s m = (if s then - int m else int m)"

fun dadd :: "double \<Rightarrow> double \<Rightarrow> double" where
  "dadd (Finite s m e) (Finite s' m' e') =
     (let k = min e e';
          t = signed s m * 2 ^ nat (e - k) + signed s' m' * 2 ^ nat (e' - k)
      in if t = 0 then Finite (s \<and> s') 0 0
         else round_ratio (t < 0) (nat \<bar>t\<bar> * 2 ^ nat k) (2 ^ nat (- k)))"
| "dadd (Finite s m e) (Infinity s') = Infinity s'"
| "dadd (Infinity s) (Finite s' m' e') = Infinity s"
| "dadd (Infinity s) (Infinity s') = (if s = s' then Infinity s else NaN)"
| "dadd NaN y = NaN"
| "dadd x NaN = NaN"

fun dneg :: "double \<Rightarrow> double" where
  "dneg NaN = NaN"
| "dneg (Infinity s) = Infinity (\<not> s)"
| "dneg (Finite s m e) = Finite (\<not> s) m e"

definition dsub :: "double \<Rightarrow> double \<Rightarrow> double" where
  "dsub x y = dadd x (dneg y)"

fun ddiv :: "double \<Rightarrow> double \<Rightarrow> double" where
  "ddiv (Finite s m e) (Finite s' m' e') =
     (if m' = 0 then (if m = 0 then NaN else Infinity (s \<noteq> s'))
      else round_ratio (s \<noteq> s') (m * 2 ^ nat (e - e')) (m' * 2 ^ nat (e' - e)))"
| "ddiv (Finite s m e) (Infinity s') = Finite (s \<noteq> s') 0 0"
| "ddiv (Infinity s) (Finite s' m' e') = Infinity (s \<noteq> s')"
| "ddiv (Infinity s) (Infinity s') = NaN"
| "ddiv NaN y = NaN"
| "ddiv x NaN = NaN"

text \<open>
  \<^verbatim>\<open>Math.min\<close> and \<^verbatim>\<open>Math.max\<close> go through their arguments from \<open>+\<infinity>\<close> and \<open>-\<infinity>\<close>; a \<^verbatim>\<open>NaN\<close>
  argument makes the result \<^verbatim>\<open>NaN\<close>, and \<open>-0\<close> counts as less than \<open>+0\<close>.
\<close>

definition min_step :: "double \<Rightarrow> double \<Rightarrow> double" where
  "min_step number lowest =
     (if lowest = NaN \<or> number = NaN then NaN
      else if number = Finite True 0 0 \<and> lowest = Finite False 0 0 then number
      else if dlt number lowest then number else lowest)"

definition max_step :: "double \<Rightarrow> double \<Rightarrow> double" where
  "max_step number highest =
     (if highest = NaN \<or> number = NaN then NaN
      else if number = Finite False 0 0 \<and> highest = Finite True 0 0 then number
      else if dlt highest number then number else highest)"

definition Math_min :: "double list \<Rightarrow> double" where
  "Math_min xs = fold min_step xs (Infinity False)"

definition Math_max :: "double list \<Rightarrow> double" where
  "Math_max xs = fold max_step xs (Infinity True)"

section \<open>The viewport fitter (mapBounds, lines 207-258)\<close>

text \<open>
  The coordinates of the stored locations are read as doubles; the bounding box, the
  center, the spans and the comparisons with the thresholds are those of the source, on
  doubles. The literals of the source are written as decimals: \<open>decimal False 465197 (- 4)\<close>
  is \<^verbatim>\<open>46.5197\<close>, \<open>decimal False 1 (- 2)\<close> is \<^verbatim>\<open>0.01\<close>.
\<close>

record viewport =
  center :: "double \<times> double"
  zoom :: nat

definition mapBounds :: "bool \<Rightarrow> MapLocation list \<Rightarrow> viewport" where
  "mapBounds mobile locs =
     (case locs of
        [] \<Rightarrow>
          \<lparr>center = (decimal False 465197 (- 4), decimal False 66323 (- 4)),
           zoom = (if mobile then 3 else 4)\<rparr>
      | [l] \<Rightarrow>
          \<lparr>center = (double_of (lat l), double_of (lng l)), zoom = (if mobile then 8 else 10)\<rparr>
      | l0 # l1 # ls \<Rightarrow>
          (let lats = map (\<lambda>loc. double_of (lat loc)) locs;
               lngs = map (\<lambda>loc. double_of (lng loc)) locs;
               minLat = Math_min lats;
               maxLat = Math_max lats;
               minLng = Math_min lngs;
               maxLng = Math_max lngs;
               centerLat = ddiv (dadd minLat maxLat) (decimal False 2 0);
               centerLng = ddiv (dadd minLng maxLng) (decimal False 2 0);
               latSpan = dsub maxLat minLat;
               lngSpan = dsub maxLng minLng;
               maxSpan = Math_max [latSpan, lngSpan];
               z = (if dlt maxSpan (decimal False 1 (- 2)) then (if mobile then 11 else 13)
                    else if dlt maxSpan (decimal False 1 (- 1)) then (if mobile then 8 else 10)
                    else if dlt maxSpan (decimal False 1 0) then (if mobile then 5 else 7)
                    else if dlt maxSpan (decimal False 10 0) then (if mobile then 3 else 5)
                    else (if mobile then 2 else 3))
           in \<lparr>center = (centerLat, centerLng), zoom = z\<rparr>))"

text \<open>
  The specification's reading of the fitter on two or more points: the span, the tier of
  the span by the documented thresholds, and the two zoom values of each tier.
\<close>

datatype tier = VeryClose | City | Regional | Country | Continental

definition tier_of_span :: "double \<Rightarrow> tier" where
  "tier_of_span sp =
     (if dlt sp (decimal False 1 (- 2)) then VeryClose
      else if dlt sp (decimal False 1 (- 1)) then City
      else if dlt sp (decimal False 1 0) then Regional
      else if dlt sp (decimal False 10 0) then Country else Continental)"

fun tier_zoom :: "bool \<Rightarrow> tier \<Rightarrow> nat" where
  "tier_zoom c VeryClose = (if c then 11 else 13)"
| "tier_zoom c City = (if c then 8 else 10)"
| "tier_zoom c Regional = (if c then 5 else 7)"
| "tier_zoom c Country = (if c then 3 else 5)"
| "tier_zoom c Continental = (if c then 2 else 3)"

definition lat_span :: "MapLocation list \<Rightarrow> double" where
  "lat_span ls =
     dsub (Math_max (map (\<lambda>l. double_of (lat l)) ls)) (Math_min (map (\<lambda>l. double_of (lat l)) ls))"

definition lng_span :: "MapLocation list \<Rightarrow> double" where
  "lng_span ls =
     dsub (Math_max (map (\<lambda>l. double_of (lng l)) ls)) (Math_min (map (\<lambda>l. double_of (lng l)) ls))"

definition span_of :: "MapLocation list \<Rightarrow> double" where
  "span_of ls = Math_max [lat_span ls, lng_span ls]"

section \<open>The platform's base64 functions\<close>

text \<open>
  \<^verbatim>\<open>btoa\<close> and \<^verbatim>\<open>atob\<close> as the HTML standard defines them: \<^verbatim>\<open>btoa\<close> throws on a code
  unit above U+00FF and otherwise base64-encodes the code units as bytes (RFC 4648, with
  padding); \<^verbatim>\<open>atob\<close> is the forgiving base64 decoder.
\<close>

datatype js_exception = TypeError | InvalidCharacterError | SyntaxError | ReferenceError

definition b64char :: "nat \<Rightarrow> nat" where
  "b64char n =
     (if n < 26 then 65 + n else if n < 52 then 97 + (n - 26)
      else if n < 62 then 48 + (n - 52) else if n = 62 then 43 else 47)"

definition b64val :: "nat \<Rightarrow> nat option" where
  "b64val c =
     (if 65 \<le> c \<and> c \<le> 90 then Some (c - 65)
      else if 97 \<le> c \<and> c \<le> 122 then Some (c - 71)
      else if 48 \<le> c \<and> c \<le> 57 then Some (c + 4)
      else if c = 43 then Some 62 else if c = 47 then Some 63 else None)"

fun sextets :: "nat list \<Rightarrow> nat list" where
  "sextets [] = []"
| "sextets [a] = [a div 4, (a mod 4) * 16]"
| "sextets [a, b] = [a div 4, (a mod 4) * 16 + b div 16, (b mod 16) * 4]"
| "sextets (a # b # c # bs) =
     [a div 4, (a mod 4) * 16 + b div 16, (b mod 16) * 4 + c div 64, c mod 64] @ sextets bs"

definition base64_encode :: "nat list \<Rightarrow> jsstring" where
  "base64_encode bytes =
     map b64char (sextets bytes) @ replicate ((3 - length bytes mod 3) mod 3) 61"

definition btoa :: "jsstring \<Rightarrow> js_exception + jsstring" where
  "btoa data =
     (if \<exists>u \<in> set data. 255 < u then Inl InvalidCharacterError
      else Inr (base64_encode data))"

definition is_ascii_whitespace :: "nat \<Rightarrow> bool" where
  "is_ascii_whitespace u \<longleftrightarrow> u \<in> {9, 10, 12, 13, 32}"

fun bytes_of_sextets :: "nat list \<Rightarrow> nat list" where
  "bytes_of_sextets (a # b # c # d # ss) =
     [a * 4 + b div 16, (b mod 16) * 16 + c div 4, (c mod 4) * 64 + d] @ bytes_of_sextets ss"
| "bytes_of_sextets [a, b, c] = [a * 4 + b div 16, (b mod 16) * 16 + c div 4]"
| "bytes_of_sextets [a, b] = [a * 4 + b div 16]"
| "bytes_of_sextets _ = []"

definition strip_padding :: "jsstring \<Rightarrow> jsstring" where
  "strip_padding d =
     (if length d mod 4 = 0 then
        (if 2 \<le> length d \<and> drop (length d - 2) d = [61, 61] then take (length d - 2) d
         else if 1 \<le> length d \<and> drop (length d - 1) d = [61] then take (length d - 1) d
         else d)
      else d)"

definition atob :: "jsstring \<Rightarrow> js_exception + jsstring" where
  "atob data =
     (let d = strip_padding (filter (\<lambda>u. \<not> is_ascii_whitespace u) data)
      in if length d mod 4 = 1 then Inl InvalidCharacterError
         else (case those (map b64val d) of
                 None \<Rightarrow> Inl InvalidCharacterError
               | Some ss \<Rightarrow> Inr (bytes_of_sextets ss)))"

section \<open>JSON values, JSON.stringify and JSON.parse\<close>

text \<open>
  The values handed to the codec: the JSON values; the numbers that JSON cannot write
  (\<^verbatim>\<open>NaN\<close> and the infinities), which \<^verbatim>\<open>JSON.stringify\<close> writes as \<^verbatim>\<open>null\<close>; and
  a marker for a reference back to an enclosing object or array, which is how a
  reference cycle shows in a traversal. An object is the list of its properties in
  enumeration order. \<^verbatim>\<open>JSON.parse\<close> keeps the order of the text; ECMAScript moves
  integer-like property names to the front, which the text of a serialized object
  already does.
\<close>

datatype json =
    JNull
  | JBool bool
  | JNum number
  | JStr jsstring
  | JArr "json list"
  | JObj "(jsstring \<times> json) list"
  | JNonFinite
  | JBackRef

subsection \<open>Number::toString\<close>

definition digit_chars :: "nat list \<Rightarrow> jsstring" where
  "digit_chars ds = map (\<lambda>d. 48 + d) ds"

fun digits_of_nat :: "nat \<Rightarrow> nat list" where
  "digits_of_nat n = (if n < 10 then [n] else digits_of_nat (n div 10) @ [n mod 10])"

declare digits_of_nat.simps [simp del]

definition exponent_part :: "int \<Rightarrow> jsstring" where
  "exponent_part e =
     [101] @ (if 0 \<le> e then [43] else [45]) @ digit_chars (digits_of_nat (nat \<bar>e\<bar>))"

definition Number_toString :: "number \<Rightarrow> jsstring" where
  "Number_toString x =
     (let ds = digits x; n = point x; k = int (length ds) in
      if ds = [] then [48]
      else (if negative x then [45] else []) @
        (if k \<le> n \<and> n \<le> 21 then digit_chars ds @ replicate (nat (n - k)) 48
         else if 0 < n \<and> n \<le> 21 then
           digit_chars (take (nat n) ds) @ [46] @ digit_chars (drop (nat n) ds)
         else if - 6 < n \<and> n \<le> 0 then [48, 46] @ replicate (nat (- n)) 48 @ digit_chars ds
         else if k = 1 then digit_chars ds @ exponent_part (n - 1)
         else digit_chars (take 1 ds) @ [46] @ digit_chars (drop 1 ds) @ exponent_part (n - 1)))"

subsection \<open>QuoteJSONString\<close>

definition hex_char :: "nat \<Rightarrow> nat" where
  "hex_char d = (if d < 10 then 48 + d else 87 + d)"

definition unicode_escape :: "nat \<Rightarrow> jsstring" where
  "unicode_escape u =
     [92, 117, hex_char (u div 4096 mod 16), hex_char (u div 256 mod 16),
      hex_char (u div 16 mod 16), hex_char (u mod 16)]"

definition is_high_surrogate :: "nat \<Rightarrow> bool" where
  "is_high_surrogate u \<longleftrightarrow> 0xD800 \<le> u \<and> u \<le> 0xDBFF"

definition is_low_surrogate :: "nat \<Rightarrow> bool" where
  "is_low_surrogate u \<longleftrightarrow> 0xDC00 \<le> u \<and> u \<le> 0xDFFF"

definition quote_unit :: "nat \<Rightarrow> jsstring" where
  "quote_unit u =
     (if u = 8 then [92, 98] else if u = 9 then [92, 116] else if u = 10 then [92, 110]
      else if u = 12 then [92, 102] else if u = 13 then [92, 114]
      else if u = 34 then [92, 34] else if u = 92 then [92, 92]
      else if u < 32 \<or> is_high_surrogate u \<or> is_low_surrogate u then unicode_escape u
      else [u])"

fun quote_units :: "jsstring \<Rightarrow> jsstring" where
  "quote_units [] = []"
| "quote_units [u] = quote_unit u"
| "quote_units (u # l # us) =
     (if is_high_surrogate u \<and> is_low_surrogate l then u # l # quote_units us
      else quote_unit u @ quote_units (l # us))"

definition QuoteJSONString :: "jsstring \<Rightarrow> jsstring" where
  "QuoteJSONString s = [34] @ quote_units s @ [34]"

subsection \<open>SerializeJSONProperty\<close>

fun join_comma :: "jsstring list \<Rightarrow> jsstring" where
  "join_comma [] = []"
| "join_comma [p] = p"
| "join_comma (p # q # ps) = p @ [44] @ join_comma (q # ps)"

definition member_text :: "jsstring \<times> jsstring option \<Rightarrow> jsstring option" where
  "member_text kv = map_option (\<lambda>t. QuoteJSONString (fst kv) @ [58] @ t) (snd kv)"

primrec SerializeJSONProperty :: "json \<Rightarrow> jsstring option" where
  "SerializeJSONProperty JNull = Some (js ''null'')"
| "SerializeJSONProperty (JBool b) = Some (if b then js ''true'' else js ''false'')"
| "SerializeJSONProperty (JNum x) = Some (Number_toString x)"
| "SerializeJSONProperty (JStr s) = Some (QuoteJSONString s)"
| "SerializeJSONProperty (JArr vs) =
     map_option (\<lambda>parts. [91] @ join_comma parts @ [93])
       (those (map SerializeJSONProperty vs))"
| "SerializeJSONProperty (JObj kvs) =
     map_option (\<lambda>parts. [123] @ join_comma parts @ [125])
       (those (map member_text (map (map_prod id SerializeJSONProperty) kvs)))"
| "SerializeJSONProperty JNonFinite = Some (js ''null'')"
| "SerializeJSONProperty JBackRef = None"

definition JSON_stringify :: "json \<Rightarrow> js_exception + jsstring" where
  "JSON_stringify v = (case SerializeJSONProperty v of None \<Rightarrow> Inl TypeError | Some t \<Rightarrow> Inr t)"

subsection \<open>JSON.parse\<close>

definition is_json_ws :: "nat \<Rightarrow> bool" where
  "is_json_ws u \<longleftrightarrow> u \<in> {9, 10, 13, 32}"

definition skip_ws :: "jsstring \<Rightarrow> jsstring" where
  "skip_ws s = dropWhile is_json_ws s"

definition is_digit :: "nat \<Rightarrow> bool" where
  "is_digit u \<longleftrightarrow> 48 \<le> u \<and> u \<le> 57"

definition digit_vals :: "jsstring \<Rightarrow> nat list" where
  "digit_vals cs = map (\<lambda>c. c - 48) cs"

definition hex_val :: "nat \<Rightarrow> nat option" where
  "hex_val c =
     (if 48 \<le> c \<and> c \<le> 57 then Some (c - 48)
      else if 97 \<le> c \<and> c \<le> 102 then Some (c - 87)
      else if 65 \<le> c \<and> c \<le> 70 then Some (c - 55) else None)"

definition hex4 :: "nat \<Rightarrow> nat \<Rightarrow> nat \<Rightarrow> nat \<Rightarrow> nat option" where
  "hex4 a b c d =
     (case (hex_val a, hex_val b, hex_val c, hex_val d) of
        (Some x, Some y, Some z, Some w) \<Rightarrow> Some (x * 4096 + y * 256 + z * 16 + w)
      | _ \<Rightarrow> None)"

definition unescape :: "nat \<Rightarrow> nat option" where
  "unescape e =
     (if e = 34 then Some 34 else if e = 92 then Some 92 else if e = 47 then Some 47
      else if e = 98 then Some 8 else if e = 102 then Some 12 else if e = 110 then Some 10
      else if e = 114 then Some 13 else if e = 116 then Some 9 else None)"

definition cons_result :: "nat \<Rightarrow> (jsstring \<times> jsstring) option \<Rightarrow> (jsstring \<times> jsstring) option" where
  "cons_result u r = map_option (\<lambda>(s, rest). (u # s, rest)) r"

text \<open>The characters of a string literal after the opening quote, up to the closing one.\<close>

fun parse_string_body :: "jsstring \<Rightarrow> (jsstring \<times> jsstring) option" where
  "parse_string_body [] = None"
| "parse_string_body (c # cs) =
     (if c = 34 then Some ([], cs)
      else if c = 92 then
        (case cs of
           [] \<Rightarrow> None
         | e # r \<Rightarrow>
             if e = 117 then
               (case r of
                  a # b # x # d # r' \<Rightarrow>
                    (case hex4 a b x d of
                       None \<Rightarrow> None
                     | Some u \<Rightarrow> cons_result u (parse_string_body r'))
                | _ \<Rightarrow> None)
             else
               (case unescape e of
                  None \<Rightarrow> None
                | Some u \<Rightarrow> cons_result u (parse_string_body r)))
      else if c < 32 then None
      else cons_result c (parse_string_body cs))"

text \<open>A number token: \<open>-? (0 | [1-9][0-9]*) (. [0-9]+)? ([eE] [+-]? [0-9]+)?\<close>.\<close>

definition read_int :: "jsstring \<Rightarrow> (nat list \<times> jsstring) option" where
  "read_int s =
     (case s of
        [] \<Rightarrow> None
      | c # r \<Rightarrow>
          if c = 48 then Some ([0], r)
          else if is_digit c then Some (digit_vals (takeWhile is_digit s), dropWhile is_digit s)
          else None)"

definition read_digits1 :: "jsstring \<Rightarrow> (nat list \<times> jsstring) option" where
  "read_digits1 s =
     (if takeWhile is_digit s = [] then None
      else Some (digit_vals (takeWhile is_digit s), dropWhile is_digit s))"

definition read_frac :: "jsstring \<Rightarrow> (nat list \<times> jsstring) option" where
  "read_frac s = (case s of c # r \<Rightarrow> if c = 46 then read_digits1 r else Some ([], s) | [] \<Rightarrow> Some ([], s))"

definition read_exp :: "jsstring \<Rightarrow> (int \<times> jsstring) option" where
  "read_exp s =
     (case s of
        c # r \<Rightarrow>
          if c = 101 \<or> c = 69 then
            (case r of
               g # r' \<Rightarrow>
                 if g = 45 then map_option (\<lambda>(ds, t). (- int (nat_of_digits ds), t)) (read_digits1 r')
                 else if g = 43 then map_option (\<lambda>(ds, t). (int (nat_of_digits ds), t)) (read_digits1 r')
                 else map_option (\<lambda>(ds, t). (int (nat_of_digits ds), t)) (read_digits1 r)
             | [] \<Rightarrow> None)
          else Some (0, s)
      | [] \<Rightarrow> Some (0, s))"

text \<open>
  The number a token denotes, in the canonical form of \<open>number\<close>: leading and trailing
  zeros of the digit string are dropped, and the decimal point moves with them.
\<close>

definition make_number :: "bool \<Rightarrow> nat list \<Rightarrow> nat list \<Rightarrow> int \<Rightarrow> number" where
  "make_number neg ip fp e =
     (let ds = ip @ fp;
          lead = length (takeWhile (\<lambda>d. d = 0) ds);
          core = rev (dropWhile (\<lambda>d. d = 0) (rev (dropWhile (\<lambda>d. d = 0) ds)))
      in if core = [] then Number False [] 0
         else Number neg core (int (length ip) - int lead + e))"

definition parse_number :: "jsstring \<Rightarrow> (number \<times> jsstring) option" where
  "parse_number s =
     (let neg = (case s of c # _ \<Rightarrow> c = 45 | [] \<Rightarrow> False);
          s1 = (if neg then tl s else s)
      in case read_int s1 of
           None \<Rightarrow> None
         | Some (ip, s2) \<Rightarrow>
             (case read_frac s2 of
                None \<Rightarrow> None
              | Some (fp, s3) \<Rightarrow>
                  (case read_exp s3 of
                     None \<Rightarrow> None
                   | Some (e, s4) \<Rightarrow> Some (make_number neg ip fp e, s4))))"

text \<open>A literal name.\<close>

definition parse_literal :: "jsstring \<Rightarrow> json \<Rightarrow> jsstring \<Rightarrow> (json \<times> jsstring) option" where
  "parse_literal lit v s =
     (if take (length lit) s = lit then Some (v, drop (length lit) s) else None)"

text \<open>
  The elements of an array after the opening bracket and the members of an object after
  the opening brace, over a parser \<open>p\<close> for values. The second argument bounds the
  number of elements read; the caller passes the length of the text, which no element
  count exceeds.
\<close>

primrec parse_elements ::
  "(jsstring \<Rightarrow> (json \<times> jsstring) option) \<Rightarrow> nat \<Rightarrow> jsstring \<Rightarrow> json list \<Rightarrow> (json list \<times> jsstring) option" where
  "parse_elements p 0 s acc = None"
| "parse_elements p (Suc k) s acc =
     (case p s of
        None \<Rightarrow> None
      | Some (v, r) \<Rightarrow>
          (case skip_ws r of
             [] \<Rightarrow> None
           | c # r' \<Rightarrow>
               if c = 44 then parse_elements p k r' (acc @ [v])
               else if c = 93 then Some (acc @ [v], r')
               else None))"

text \<open>A repeated property name keeps its first position and takes the last value.\<close>

fun set_property :: "jsstring \<Rightarrow> json \<Rightarrow> (jsstring \<times> json) list \<Rightarrow> (jsstring \<times> json) list" where
  "set_property k v [] = [(k, v)]"
| "set_property k v (p # ps) = (if fst p = k then (k, v) # ps else p # set_property k v ps)"

primrec parse_members ::
  "(jsstring \<Rightarrow> (json \<times> jsstring) option) \<Rightarrow> nat \<Rightarrow> jsstring \<Rightarrow> (jsstring \<times> json) list
     \<Rightarrow> ((jsstring \<times> json) list \<times> jsstring) option" where
  "parse_members p 0 s acc = None"
| "parse_members p (Suc k) s acc =
     (case skip_ws s of
        [] \<Rightarrow> None
      | q # s1 \<Rightarrow>
          if q \<noteq> 34 then None
          else
            (case parse_string_body s1 of
               None \<Rightarrow> None
             | Some (key, s2) \<Rightarrow>
                 (case skip_ws s2 of
                    [] \<Rightarrow> None
                  | c # s3 \<Rightarrow>
                      if c \<noteq> 58 then None
                      else
                        (case p s3 of
                           None \<Rightarrow> None
                         | Some (v, r) \<Rightarrow>
                             (case skip_ws r of
                                [] \<Rightarrow> None
                              | d # r' \<Rightarrow>
                                  if d = 44 then parse_members p k r' (set_property key v acc)
                                  else if d = 125 then Some (set_property key v acc, r')
                                  else None)))))"

definition parse_value_with ::
  "(jsstring \<Rightarrow> (json \<times> jsstring) option) \<Rightarrow> jsstring \<Rightarrow> (json \<times> jsstring) option" where
  "parse_value_with p s =
     (case skip_ws s of
        [] \<Rightarrow> None
      | c # cs \<Rightarrow>
          if c = 110 then parse_literal (js ''null'') JNull (c # cs)
          else if c = 116 then parse_literal (js ''true'') (JBool True) (c # cs)
          else if c = 102 then parse_literal (js ''false'') (JBool False) (c # cs)
          else if c = 34 then map_option (\<lambda>(t, r). (JStr t, r)) (parse_string_body cs)
          else if c = 91 then
            (case skip_ws cs of
               [] \<Rightarrow> None
             | d # r \<Rightarrow>
                 if d = 93 then Some (JArr [], r)
                 else map_option (\<lambda>(vs, r). (JArr vs, r)) (parse_elements p (length cs) cs []))
          else if c = 123 then
            (case skip_ws cs of
               [] \<Rightarrow> None
             | d # r \<Rightarrow>
                 if d = 125 then Some (JObj [], r)
                 else map_option (\<lambda>(kvs, r). (JObj kvs, r)) (parse_members p (length cs) cs []))
          else if c = 45 \<or> is_digit c then
            map_option (\<lambda>(x, r). (JNum x, r)) (parse_number (c # cs))
          else None)"

text \<open>The value parser, by nesting depth.\<close>

primrec parse_value :: "nat \<Rightarrow> jsstring \<Rightarrow> (json \<times> jsstring) option" where
  "parse_value 0 s = None"
| "parse_value (Suc n) s = parse_value_with (parse_value n) s"

definition JSON_parse :: "jsstring \<Rightarrow> js_exception + json" where
  "JSON_parse text =
     (case parse_value (length text) text of
        None \<Rightarrow> Inl SyntaxError
      | Some (v, rest) \<Rightarrow> if skip_ws rest = [] then Inr v else Inl SyntaxError)"

section \<open>The transport codec (utils/base64.ts)\<close>

text \<open>
  What the module reads of its environment: whether \<^verbatim>\<open>btoa\<close> and \<^verbatim>\<open>atob\<close> are defined,
  and Node's \<^verbatim>\<open>Buffer\<close> when it is. \<^verbatim>\<open>Buffer.from(s, 'utf-8').toString('base64')\<close> is
  the base64 of the UTF-8 bytes; \<^verbatim>\<open>Buffer.from(s, 'base64').toString('utf-8')\<close> is a
  parameter of the runtime.
\<close>

record runtime =
  btoa_defined :: bool
  atob_defined :: bool
  Buffer_base64_to_utf8 :: "(jsstring \<Rightarrow> jsstring) option"

definition utf8_unit :: "nat \<Rightarrow> nat list" where
  "utf8_unit u =
     (if u < 0x80 then [u]
      else if u < 0x800 then [0xC0 + u div 64, 0x80 + u mod 64]
      else if is_high_surrogate u \<or> is_low_surrogate u then [0xEF, 0xBF, 0xBD]
      else [0xE0 + u div 4096 mod 16, 0x80 + u div 64 mod 64, 0x80 + u mod 64])"

definition utf8_code_point :: "nat \<Rightarrow> nat list" where
  "utf8_code_point cp =
     [0xF0 + cp div 262144 mod 8, 0x80 + cp div 4096 mod 64, 0x80 + cp div 64 mod 64,
      0x80 + cp mod 64]"

fun utf8_encode :: "jsstring \<Rightarrow> nat list" where
  "utf8_encode [] = []"
| "utf8_encode [u] = utf8_unit u"
| "utf8_encode (u # l # us) =
     (if is_high_surrogate u \<and> is_low_surrogate l
      then utf8_code_point (0x10000 + (u - 0xD800) * 1024 + (l - 0xDC00)) @ utf8_encode us
      else utf8_unit u @ utf8_encode (l # us))"

text \<open>
  The \<^verbatim>\<open>Error\<close> the module throws: \<^verbatim>\<open>Failed to encode data to base64\<close> or
  \<^verbatim>\<open>Failed to decode base64 string\<close>, with the exception it caught.
\<close>

datatype error = FailedToEncode js_exception | FailedToDecode js_exception

definition encodeToBase64 :: "runtime \<Rightarrow> json \<Rightarrow> error + jsstring" where
  "encodeToBase64 rt data =
     (case JSON_stringify data of
        Inl e \<Rightarrow> Inl (FailedToEncode e)
      | Inr jsonString \<Rightarrow>
          if btoa_defined rt then
            (case btoa jsonString of
               Inl e \<Rightarrow> Inl (FailedToEncode e)
             | Inr b \<Rightarrow> Inr b)
          else
            (case Buffer_base64_to_utf8 rt of
               None \<Rightarrow> Inl (FailedToEncode ReferenceError)
             | Some _ \<Rightarrow> Inr (base64_encode (utf8_encode jsonString))))"

definition decodeFromBase64 :: "runtime \<Rightarrow> jsstring \<Rightarrow> error + json" where
  "decodeFromBase64 rt base64String =
     (case (if atob_defined rt then atob base64String
            else (case Buffer_base64_to_utf8 rt of
                    None \<Rightarrow> Inl ReferenceError
                  | Some toString \<Rightarrow> Inr (toString base64String))) of
        Inl e \<Rightarrow> Inl (FailedToDecode e)
      | Inr jsonString \<Rightarrow>
          (case JSON_parse jsonString of
             Inl e \<Rightarrow> Inl (FailedToDecode e)
           | Inr v \<Rightarrow> Inr v))"

definition safeEncodeToBase64 :: "runtime \<Rightarrow> json \<Rightarrow> jsstring option" where
  "safeEncodeToBase64 rt data = (case encodeToBase64 rt data of Inl _ \<Rightarrow> None | Inr b \<Rightarrow> Some b)"

definition safeDecodeFromBase64 :: "runtime \<Rightarrow> jsstring \<Rightarrow> json option" where
  "safeDecodeFromBase64 rt s = (case decodeFromBase64 rt s of Inl _ \<Rightarrow> None | Inr v \<Rightarrow> Some v)"

text \<open>The pattern \<^verbatim>\<open>/^[A-Za-z0-9+/]*={0,2}$/\<close>.\<close>

definition base64Pattern :: "jsstring \<Rightarrow> bool" where
  "base64Pattern str \<longleftrightarrow>
     dropWhile (\<lambda>c. b64val c \<noteq> None) str \<in> {[], [61], [61, 61]}"

definition isValidBase64 :: "runtime \<Rightarrow> jsstring \<Rightarrow> bool" where
  "isValidBase64 rt str =
     (if \<not> base64Pattern str then False
      else
        (case decodeFromBase64 rt str of
           Inl _ \<Rightarrow> False
         | Inr decoded \<Rightarrow>
             (case encodeToBase64 rt decoded of
                Inl _ \<Rightarrow> False
              | Inr reencoded \<Rightarrow> reencoded = str)))"

text \<open>\<^verbatim>\<open>s.replace(/c/g, r)\<close> for a pattern of one character.\<close>

definition replace_all :: "nat \<Rightarrow> jsstring \<Rightarrow> jsstring \<Rightarrow> jsstring" where
  "replace_all c r s = concat (map (\<lambda>u. if u = c then r else [u]) s)"

definition encodeToUrlSafeBase64 :: "runtime \<Rightarrow> json \<Rightarrow> error + jsstring" where
  "encodeToUrlSafeBase64 rt data =
     (case encodeToBase64 rt data of
        Inl e \<Rightarrow> Inl e
      | Inr base64 \<Rightarrow> Inr (replace_all 61 [] (replace_all 47 [95] (replace_all 43 [45] base64))))"

definition decodeFromUrlSafeBase64 :: "runtime \<Rightarrow> jsstring \<Rightarrow> error + json" where
  "decodeFromUrlSafeBase64 rt urlSafeBase64 =
     (let base64 = replace_all 95 [47] (replace_all 45 [43] urlSafeBase64);
          padding = 4 - length base64 mod 4
      in decodeFromBase64 rt (if padding \<noteq> 4 then base64 @ replicate padding 61 else base64))"

section \<open>Sharing and seeding (App.tsx)\<close>

text \<open>
  What \<^verbatim>\<open>JSON.stringify\<close> sees of the location list: the properties of each record in
  the order the object literal creates them; a \<^verbatim>\<open>description\<close> that is \<^verbatim>\<open>undefined\<close> is
  left out, as the serializer leaves it out.
\<close>

definition MapLocation_json :: "MapLocation \<Rightarrow> json" where
  "MapLocation_json l =
     JObj ([(js ''lat'', JNum (lat l)), (js ''lng'', JNum (lng l)), (js ''name'', JStr (name l))]
           @ (case description l of None \<Rightarrow> [] | Some d \<Rightarrow> [(js ''description'', JStr d)]))"

definition mapLocations_json :: "MapLocation list \<Rightarrow> json" where
  "mapLocations_json ls = JArr (map MapLocation_json ls)"

text \<open>
  The cast \<^verbatim>\<open>decodeFromUrlSafeBase64<MapLocation[]>\<close> is unchecked. A decoded value of
  the shape of a location list is read as that list; on any other value the result is
  \<open>None\<close>: the component then holds a value that is not a location list, and what it does
  with it is outside this model.
\<close>

definition json_MapLocation :: "json \<Rightarrow> MapLocation option" where
  "json_MapLocation v =
     (case v of
        JObj ps \<Rightarrow>
          (case (map_of ps (js ''lat''), map_of ps (js ''lng''), map_of ps (js ''name'')) of
             (Some (JNum la), Some (JNum lo), Some (JStr nm)) \<Rightarrow>
               (case map_of ps (js ''description'') of
                  None \<Rightarrow> Some \<lparr>lat = la, lng = lo, name = nm, description = None\<rparr>
                | Some (JStr d) \<Rightarrow> Some \<lparr>lat = la, lng = lo, name = nm, description = Some d\<rparr>
                | Some _ \<Rightarrow> None)
           | _ \<Rightarrow> None)
      | _ \<Rightarrow> None)"

definition json_MapLocations :: "json \<Rightarrow> MapLocation list option" where
  "json_MapLocations v = (case v of JArr vs \<Rightarrow> those (map json_MapLocation vs) | _ \<Rightarrow> None)"

text \<open>
  The page's address: what precedes the query, the query's parameters (decoded), and the
  fragment. \<^verbatim>\<open>URLSearchParams\<close> serializes names and values as
  \<^verbatim>\<open>application/x-www-form-urlencoded\<close>.
\<close>

record URL =
  origin_path :: jsstring
  searchParams :: "(jsstring \<times> jsstring) list"
  fragment :: jsstring

definition hex_upper :: "nat \<Rightarrow> nat" where
  "hex_upper d = (if d < 10 then 48 + d else 55 + d)"

definition urlencode_byte :: "nat \<Rightarrow> jsstring" where
  "urlencode_byte b =
     (if b = 32 then [43]
      else if (48 \<le> b \<and> b \<le> 57) \<or> (65 \<le> b \<and> b \<le> 90) \<or> (97 \<le> b \<and> b \<le> 122)
              \<or> b = 42 \<or> b = 45 \<or> b = 46 \<or> b = 95 then [b]
      else [37, hex_upper (b div 16 mod 16), hex_upper (b mod 16)])"

definition urlencode :: "jsstring \<Rightarrow> jsstring" where
  "urlencode s = concat (map urlencode_byte (utf8_encode s))"

fun join_amp :: "jsstring list \<Rightarrow> jsstring" where
  "join_amp [] = []"
| "join_amp [p] = p"
| "join_amp (p # q # ps) = p @ [38] @ join_amp (q # ps)"

definition URL_toString :: "URL \<Rightarrow> jsstring" where
  "URL_toString u =
     origin_path u
     @ (if searchParams u = [] then []
        else [63] @ join_amp (map (\<lambda>(k, v). urlencode k @ [61] @ urlencode v) (searchParams u)))
     @ fragment u"

definition searchParams_get :: "jsstring \<Rightarrow> URL \<Rightarrow> jsstring option" where
  "searchParams_get k u = map_of (searchParams u) k"

definition searchParams_delete :: "jsstring \<Rightarrow> URL \<Rightarrow> URL" where
  "searchParams_delete k u = u\<lparr>searchParams := filter (\<lambda>(k', _). k' \<noteq> k) (searchParams u)\<rparr>"

text \<open>\<^verbatim>\<open>set\<close>: the first parameter of that name takes the value and the others go; a new name is appended.\<close>

definition searchParams_set :: "jsstring \<Rightarrow> jsstring \<Rightarrow> URL \<Rightarrow> URL" where
  "searchParams_set k v u =
     u\<lparr>searchParams :=
         takeWhile (\<lambda>(k', _). k' \<noteq> k) (searchParams u) @ [(k, v)]
         @ filter (\<lambda>(k', _). k' \<noteq> k) (dropWhile (\<lambda>(k', _). k' \<noteq> k) (searchParams u))\<rparr>"

text \<open>The window: the address of the page, and whether the clipboard accepts a write.\<close>

record window =
  location :: URL
  clipboard_accepts :: bool

text \<open>
  The effect on mount (lines 82-97). The result is \<open>None\<close> when the decoded value is not
  of the shape of a location list.
\<close>

definition loadLocationsFromUrl :: "runtime \<Rightarrow> window \<Rightarrow> App \<Rightarrow> (alert option \<times> App) option" where
  "loadLocationsFromUrl rt win st =
     (case searchParams_get (js ''locations'') (location win) of
        None \<Rightarrow> Some (None, st)
      | Some locationsParam \<Rightarrow>
          if locationsParam = [] then Some (None, st)
          else
            (case decodeFromUrlSafeBase64 rt locationsParam of
               Inl _ \<Rightarrow> Some (Some InvalidLocationsDataInUrl, st)
             | Inr decoded \<Rightarrow>
                 map_option (\<lambda>ls. (None, st\<lparr>mapLocations := ls\<rparr>)) (json_MapLocations decoded)))"

text \<open>
  \<^verbatim>\<open>generateLocationsShareUrl\<close> (lines 135-150): the URL it returns and the next state,
  or the error that \<^verbatim>\<open>encodeToUrlSafeBase64\<close> throws through it.
\<close>

definition generateLocationsShareUrl :: "runtime \<Rightarrow> window \<Rightarrow> App \<Rightarrow> error + (jsstring \<times> App)" where
  "generateLocationsShareUrl rt win st =
     (if length (mapLocations st) > 0 then
        (case encodeToUrlSafeBase64 rt (mapLocations_json (mapLocations st)) of
           Inl e \<Rightarrow> Inl e
         | Inr urlSafeEncoded \<Rightarrow>
             let currentUrl = searchParams_set (js ''locations'') urlSafeEncoded
                                (searchParams_delete (js ''locations'') (location win));
                 shareableUrl = URL_toString currentUrl
             in Inr (shareableUrl, st\<lparr>locationsShareUrl := shareableUrl\<rparr>))
      else Inr ([], st))"

text \<open>
  \<^verbatim>\<open>copyLocationsShareUrl\<close> (lines 152-163): the text handed to
  \<^verbatim>\<open>navigator.clipboard.writeText\<close>, if any, the alert, and the next state.
\<close>

record copy_outcome =
  clipboard_text :: "jsstring option"
  alerted :: "alert option"
  app_after :: App

definition copyLocationsShareUrl :: "runtime \<Rightarrow> window \<Rightarrow> App \<Rightarrow> error + copy_outcome" where
  "copyLocationsShareUrl rt win st =
     (case (if locationsShareUrl st \<noteq> [] then Inr (locationsShareUrl st, st)
            else generateLocationsShareUrl rt win st) of
        Inl e \<Rightarrow> Inl e
      | Inr (url, st') \<Rightarrow>
          if url \<noteq> [] then
            Inr \<lparr>clipboard_text = Some url,
                 alerted = Some (if clipboard_accepts win then ShareUrlCopied else FailedToCopyUrl),
                 app_after = st'\<rparr>
          else Inr \<lparr>clipboard_text = None, alerted = None, app_after = st'\<rparr>)"

section \<open>Focus and its delayed clear (handleLocationClick, lines 186-198)\<close>

text \<open>
  The page: the component's state, the time in milliseconds, and the due times of the
  callbacks that \<^verbatim>\<open>setTimeout\<close> has scheduled and that have not run. Every such callback
  is the same: it clears \<^verbatim>\<open>targetLocation\<close> and \<^verbatim>\<open>openPopupLocationIndex\<close>.
\<close>

record page =
  app :: App
  now :: nat
  timeouts :: "nat list"

definition clearTarget :: "App \<Rightarrow> App" where
  "clearTarget st = st\<lparr>targetLocation := None, openPopupLocationIndex := None\<rparr>"

definition handleLocationClick :: "MapLocation \<Rightarrow> int \<Rightarrow> page \<Rightarrow> page" where
  "handleLocationClick loc index p =
     p\<lparr>app := (app p)\<lparr>targetLocation := Some (lat loc, lng loc),
                        openPopupLocationIndex := Some index\<rparr>,
       timeouts := timeouts p @ [now p + 5000]\<rparr>"

text \<open>Time passes until \<open>t\<close>: the callbacks due by then run, and leave the list.\<close>

definition run_until :: "nat \<Rightarrow> page \<Rightarrow> page" where
  "run_until t p =
     p\<lparr>app := fold (\<lambda>_ st. clearTarget st) (filter (\<lambda>d. d \<le> t) (timeouts p)) (app p),
       now := max t (now p),
       timeouts := filter (\<lambda>d. \<not> d \<le> t) (timeouts p)\<rparr>"

section \<open>Well-formed values and notions used in the proofs\<close>

text \<open>
  The canonical form of a number: decimal digits, no leading and no trailing zero, and
  zero as the empty digit list with no sign. Every finite number other than \<open>-0\<close> has
  exactly one such form.
\<close>

definition wf_number :: "number \<Rightarrow> bool" where
  "wf_number x \<longleftrightarrow>
     list_all (\<lambda>d. d < 10) (digits x) \<and>
     (if digits x = [] then \<not> negative x \<and> point x = 0
      else hd (digits x) \<noteq> 0 \<and> last (digits x) \<noteq> 0)"

text \<open>
  A value that JSON can write: no back reference (no cycle), every number finite and in
  canonical form, and no property name twice in one object.
\<close>

primrec wf_json :: "json \<Rightarrow> bool" where
  "wf_json JNull = True"
| "wf_json (JBool b) = True"
| "wf_json (JNum x) = wf_number x"
| "wf_json (JStr s) = True"
| "wf_json (JArr vs) = list_all (\<lambda>b. b) (map wf_json vs)"
| "wf_json (JObj kvs) =
     (distinct (map fst kvs) \<and> list_all (\<lambda>b. b) (map snd (map (map_prod id wf_json) kvs)))"
| "wf_json JNonFinite = False"
| "wf_json JBackRef = False"

text \<open>A bound on the nesting of a value, below the length of its text.\<close>

primrec json_measure :: "json \<Rightarrow> nat" where
  "json_measure JNull = 0"
| "json_measure (JBool b) = 0"
| "json_measure (JNum x) = 0"
| "json_measure (JStr s) = 0"
| "json_measure (JArr vs) = Suc (sum_list (map json_measure vs))"
| "json_measure (JObj kvs) = Suc (sum_list (map snd (map (map_prod id json_measure) kvs)))"
| "json_measure JNonFinite = 0"
| "json_measure JBackRef = 0"

text \<open>The text after a token does not continue it.\<close>

definition next_is :: "(nat \<Rightarrow> bool) \<Rightarrow> jsstring \<Rightarrow> bool" where
  "next_is P s = (case s of [] \<Rightarrow> False | c # _ \<Rightarrow> P c)"

definition delimited :: "jsstring \<Rightarrow> bool" where
  "delimited s \<longleftrightarrow> s = [] \<or> next_is (\<lambda>c. c = 44 \<or> c = 93 \<or> c = 125) s"

text \<open>The first character of the text of a value.\<close>

definition value_start :: "nat \<Rightarrow> bool" where
  "value_start c \<longleftrightarrow>
     c = 110 \<or> c = 116 \<or> c = 102 \<or> c = 34 \<or> c = 91 \<or> c = 123 \<or> c = 45 \<or> is_digit c"

text \<open>The text of a number after its sign, and the parser after the sign.\<close>

definition number_body :: "nat list \<Rightarrow> int \<Rightarrow> jsstring" where
  "number_body ds n =
     (let k = int (length ds) in
      if k \<le> n \<and> n \<le> 21 then digit_chars ds @ replicate (nat (n - k)) 48
      else if 0 < n \<and> n \<le> 21 then
        digit_chars (take (nat n) ds) @ [46] @ digit_chars (drop (nat n) ds)
      else if - 6 < n \<and> n \<le> 0 then [48, 46] @ replicate (nat (- n)) 48 @ digit_chars ds
      else if k = 1 then digit_chars ds @ exponent_part (n - 1)
      else digit_chars (take 1 ds) @ [46] @ digit_chars (drop 1 ds) @ exponent_part (n - 1))"

definition read_unsigned :: "bool \<Rightarrow> jsstring \<Rightarrow> (number \<times> jsstring) option" where
  "read_unsigned neg s1 =
     (case read_int s1 of
        None \<Rightarrow> None
      | Some (ip, s2) \<Rightarrow>
          (case read_frac s2 of
             None \<Rightarrow> None
           | Some (fp, s3) \<Rightarrow>
               (case read_exp s3 of
                  None \<Rightarrow> None
                | Some (e, s4) \<Rightarrow> Some (make_number neg ip fp e, s4))))"

text \<open>The number of pad characters of an encoding of \<open>bs\<close>.\<close>

definition pad_count :: "nat list \<Rightarrow> nat" where
  "pad_count bs = (3 - length bs mod 3) mod 3"

text \<open>
  The two string transformations of the URL-safe codec, named: what
  \<^verbatim>\<open>encodeToUrlSafeBase64\<close> does to the base64 text, and what
  \<^verbatim>\<open>decodeFromUrlSafeBase64\<close> does to the token before decoding it.
\<close>

definition url_safe :: "jsstring \<Rightarrow> jsstring" where
  "url_safe b = replace_all 61 [] (replace_all 47 [95] (replace_all 43 [45] b))"

definition url_unsafe :: "jsstring \<Rightarrow> jsstring" where
  "url_unsafe t =
     (let base64 = replace_all 95 [47] (replace_all 45 [43] t); padding = 4 - length base64 mod 4
      in if padding \<noteq> 4 then base64 @ replicate padding 61 else base64)"

text \<open>The characters \<open>[A-Za-z0-9_-]\<close>.\<close>

definition url_safe_char :: "nat \<Rightarrow> bool" where
  "url_safe_char c \<longleftrightarrow>
     (65 \<le> c \<and> c \<le> 90) \<or> (97 \<le> c \<and> c \<le> 122) \<or> (48 \<le> c \<and> c \<le> 57) \<or> c = 45 \<or> c = 95"

text \<open>A finite double of magnitude at most \<open>b\<close>.\<close>

definition bounded_by :: "real \<Rightarrow> double \<Rightarrow> bool" where
  "bounded_by b d \<longleftrightarrow> (case d of Finite s m e \<Rightarrow> real m * 2 powi e \<le> b | _ \<Rightarrow> False)"

section \<open>Sample values\<close>

text \<open>Concrete inputs on which the theorems below are exercised.\<close>

definition place :: "number \<Rightarrow> number \<Rightarrow> string \<Rightarrow> MapLocation" where
  "place la lo nm = \<lparr>lat = la, lng = lo, name = js nm, description = None\<rparr>"

definition sample_parseFloat :: "jsstring \<Rightarrow> number option" where
  "sample_parseFloat s =
     (if s = js ''1'' then Some (Number False [1] 1)
      else if s = js ''2'' then Some (Number False [2] 1)
      else if s = js ''91'' then Some (Number False [9,1] 2) else None)"

definition sample_form :: NewLocation where
  "sample_form = \<lparr>lat_input = js ''1'', lng_input = js ''2'', name_input = js '' Home '',
     description_input = []\<rparr>"

definition home :: MapLocation where
  "home = place (Number False [1] 1) (Number False [2] 1) ''Home''"

definition work :: MapLocation where
  "work = place (Number False [2] 1) (Number False [1] 1) ''Work''"

definition browser :: runtime where
  "browser = \<lparr>btoa_defined = True, atob_defined = True, Buffer_base64_to_utf8 = None\<rparr>"

definition tokyo :: MapLocation where
  "tokyo = \<lparr>lat = Number False [3,5,6,7,6,2] 2, lng = Number False [1,3,9,6,5,0,3] 3,
     name = [0x6771, 0x4EAC], description = None\<rparr>"

definition page_url :: "(jsstring \<times> jsstring) list \<Rightarrow> window" where
  "page_url ps =
     \<lparr>location = \<lparr>origin_path = js ''http://localhost:5173/'', searchParams = ps, fragment = []\<rparr>,
      clipboard_accepts = True\<rparr>"

definition fresh_page :: page where
  "fresh_page = \<lparr>app = initialApp False, now = 0, timeouts = []\<rparr>"

definition bad_record :: MapLocation where
  "bad_record = \<lparr>lat = Number False [9,1] 2, lng = Number False [] 0, name = [], description = None\<rparr>"

definition home_only :: App where
  "home_only = (initialApp False)\<lparr>mapLocations := [home]\<rparr>"

definition home_url :: jsstring where
  "home_url = js ''http://localhost:5173/?locations=W3sibGF0IjoxLCJsbmciOjIsIm5hbWUiOiJIb21lIn1d''"

section \<open>Properties of binary64 arithmetic\<close>

subsection \<open>The rounding is to a nearest double\<close>

text \<open>
  \<open>bit_length\<close> and \<open>floor_log2\<close> find the binade of a ratio; \<open>round_half_even\<close> returns an
  integer nearest to a ratio.
\<close>

lemma bit_length_0: "bit_length 0 = 0"
  by (simp add: bit_length.simps)

lemma bit_length_1: "bit_length 1 = 1" "bit_length (Suc 0) = 1"
  by (simp_all add: bit_length.simps)

lemma bit_length_upper: "n < 2 ^ bit_length n"
proof (induction n rule: bit_length.induct)
  case (1 n)
  show ?case
  proof (cases "n = 0")
    case True
    then show ?thesis by (simp add: bit_length_0)
  next
    case False
    with 1 have "n div 2 < 2 ^ bit_length (n div 2)" by simp
    then have "n < 2 * 2 ^ bit_length (n div 2)" by linarith
    with False show ?thesis by (subst bit_length.simps) simp
  qed
qed

lemma bit_length_lower: "0 < n \<Longrightarrow> 2 ^ bit_length n \<le> 2 * n"
proof (induction n rule: bit_length.induct)
  case (1 n)
  show ?case
  proof (cases "n div 2 = 0")
    case True
    with 1 have "n = 1" by linarith
    then show ?thesis by (simp add: bit_length_1)
  next
    case False
    with 1 have "2 ^ bit_length (n div 2) \<le> 2 * (n div 2)" by simp
    then have "2 * 2 ^ bit_length (n div 2) \<le> 2 * n" by linarith
    with 1(2) show ?thesis by (subst bit_length.simps) simp
  qed
qed

lemma two_powi_split: "(2::real) powi l = 2 ^ nat l / 2 ^ nat (- l)"
  by (cases "0 \<le> l") (simp_all add: power_int_def field_simps)

lemma two_powi_diff: "(2::real) powi (int a - int b) = 2 ^ a / 2 ^ b"
  by (simp add: power_int_diff)

lemma bit_length_upper_real: "real n < 2 ^ bit_length n"
proof -
  have "real n < real (2 ^ bit_length n)"
    by (simp only: of_nat_less_iff bit_length_upper)
  then show ?thesis by simp
qed

lemma bit_length_lower_real: "0 < n \<Longrightarrow> 2 ^ bit_length n \<le> 2 * real n"
proof -
  assume "0 < n"
  then have "real (2 ^ bit_length n) \<le> real (2 * n)"
    by (simp only: of_nat_le_iff bit_length_lower)
  then show ?thesis by simp
qed

lemma floor_log2_test:
  assumes "0 < q"
  shows "q * 2 ^ nat l \<le> p * 2 ^ nat (- l) \<longleftrightarrow> 2 powi l \<le> real p / real q"
proof -
  have "q * 2 ^ nat l \<le> p * 2 ^ nat (- l) \<longleftrightarrow> real (q * 2 ^ nat l) \<le> real (p * 2 ^ nat (- l))"
    by (simp only: of_nat_le_iff)
  also have "\<dots> \<longleftrightarrow> real q * 2 ^ nat l \<le> real p * 2 ^ nat (- l)"
    by simp
  also have "\<dots> \<longleftrightarrow> 2 ^ nat l / 2 ^ nat (- l) \<le> real p / real q"
    using assms by (simp add: field_simps)
  finally show ?thesis by (simp only: two_powi_split)
qed

lemma floor_log2_upper_aux:
  assumes "0 < p" and "0 < q"
  shows "real p / real q < 2 powi (int (bit_length p) - int (bit_length q) + 1)"
proof -
  have "real p / real q < 2 ^ bit_length p / (2 ^ bit_length q / 2)"
    using bit_length_upper_real [of p] bit_length_lower_real [OF assms(2)] assms
    by (intro frac_less) simp_all
  also have "\<dots> = 2 powi (int (bit_length p) - int (bit_length q) + 1)"
    by (simp add: power_int_add two_powi_diff)
  finally show ?thesis .
qed

lemma floor_log2_lower_aux:
  assumes "0 < p" and "0 < q"
  shows "2 powi (int (bit_length p) - int (bit_length q) - 1) \<le> real p / real q"
proof -
  have "2 ^ bit_length p / 2 / 2 ^ bit_length q \<le> real p / real q"
    using bit_length_lower_real [OF assms(1)] bit_length_upper_real [of q] assms
    by (intro frac_le) simp_all
  moreover have "2 ^ bit_length p / 2 / 2 ^ bit_length q
      = (2::real) powi (int (bit_length p) - int (bit_length q) - 1)"
    by (simp add: power_int_diff two_powi_diff)
  ultimately show ?thesis by simp
qed

lemma floor_log2_bounds:
  assumes "0 < p" and "0 < q"
  shows "2 powi (floor_log2 p q) \<le> real p / real q"
    and "real p / real q < 2 powi (floor_log2 p q + 1)"
proof -
  define l where "l = int (bit_length p) - int (bit_length q)"
  have fl: "floor_log2 p q = (if 2 powi l \<le> real p / real q then l else l - 1)"
    unfolding floor_log2_def l_def [symmetric] Let_def floor_log2_test [OF assms(2)] ..
  show "2 powi (floor_log2 p q) \<le> real p / real q"
    using floor_log2_lower_aux [OF assms] by (simp add: fl l_def)
  show "real p / real q < 2 powi (floor_log2 p q + 1)"
    using floor_log2_upper_aux [OF assms] by (simp add: fl l_def not_le)
qed

lemma round_half_even_cases:
  "round_half_even n d = n div d \<and> 2 * (n mod d) \<le> d
   \<or> round_half_even n d = n div d + 1 \<and> d \<le> 2 * (n mod d)"
  by (auto simp: round_half_even_def Let_def)

lemma round_half_even_nearest_int:
  assumes "0 < d"
  shows "\<bar>int (round_half_even n d) * int d - int n\<bar> \<le> \<bar>int k * int d - int n\<bar>"
proof -
  define A where "A = int (n div d) * int d"
  define R where "R = int (n mod d)"
  define D where "D = int d"
  define K where "K = int k * int d"
  have N: "int n = A + R"
    unfolding A_def R_def by (simp flip: of_nat_mult of_nat_add)
  have R: "0 \<le> R" "R < D" using assms by (simp_all add: R_def D_def)
  have K: "K \<le> A \<or> A + D \<le> K"
  proof (cases "k \<le> n div d")
    case True
    then have "k * d \<le> (n div d) * d" by (rule mult_le_mono1)
    then have "int (k * d) \<le> int ((n div d) * d)" by (simp only: of_nat_le_iff)
    then show ?thesis by (simp add: K_def A_def)
  next
    case False
    then have "n div d + 1 \<le> k" by simp
    then have "(n div d + 1) * d \<le> k * d" by (rule mult_le_mono1)
    then have "int ((n div d + 1) * d) \<le> int (k * d)" by (simp only: of_nat_le_iff)
    then show ?thesis by (simp add: K_def A_def D_def algebra_simps)
  qed
  from round_half_even_cases [of n d] show ?thesis
  proof
    assume c: "round_half_even n d = n div d \<and> 2 * (n mod d) \<le> d"
    then have "2 * R \<le> D" unfolding R_def D_def by linarith
    moreover have "int (round_half_even n d) * int d = A" using c by (simp add: A_def)
    ultimately show ?thesis using N R K unfolding K_def [symmetric] by linarith
  next
    assume c: "round_half_even n d = n div d + 1 \<and> d \<le> 2 * (n mod d)"
    then have "D \<le> 2 * R" unfolding R_def D_def by linarith
    moreover have "int (round_half_even n d) * int d = A + D"
      using c by (simp add: A_def D_def algebra_simps)
    ultimately show ?thesis using N R K unfolding K_def [symmetric] by linarith
  qed
qed

lemma round_half_even_nearest:
  assumes "0 < d"
  shows "\<bar>real (round_half_even n d) - real n / real d\<bar> \<le> \<bar>real k - real n / real d\<bar>"
proof -
  have d: "0 < real d" using assms by simp
  have scale: "\<bar>real j - real n / real d\<bar> = \<bar>real j * real d - real n\<bar> / real d" for j
  proof -
    have "real j - real n / real d = (real j * real d - real n) / real d"
      using d by (simp add: field_simps)
    then show ?thesis using d by (simp only: abs_divide abs_of_pos)
  qed
  have "real_of_int \<bar>int (round_half_even n d) * int d - int n\<bar>
          \<le> real_of_int \<bar>int k * int d - int n\<bar>"
    by (simp only: of_int_le_iff round_half_even_nearest_int [OF assms])
  then have "\<bar>real (round_half_even n d) * real d - real n\<bar> \<le> \<bar>real k * real d - real n\<bar>"
    by simp
  then show ?thesis
    unfolding scale using d by (simp add: divide_right_mono)
qed

lemma two_powi_pos: "0 < (2::real) powi e"
  by (simp add: zero_less_power_int)

lemma two_powi_mono: "a \<le> b \<Longrightarrow> (2::real) powi a \<le> 2 powi b"
  by (rule power_int_increasing) simp_all

lemma two_powi_plus: "(2::real) powi (a + int n) = 2 ^ n * 2 powi a"
  by (simp add: power_int_add)

lemma scaled_nearest:
  assumes "0 < q"
  shows "\<bar>real (round_half_even (p * 2 ^ nat (- e0)) (q * 2 ^ nat e0)) * 2 powi e0 - real p / real q\<bar>
       \<le> \<bar>real k * 2 powi e0 - real p / real q\<bar>"
proof -
  define x where "x = real p / real q"
  define m0 where "m0 = round_half_even (p * 2 ^ nat (- e0)) (q * 2 ^ nat e0)"
  define u :: real where "u = 2 powi e0"
  have u: "0 < u" by (simp add: u_def two_powi_pos)
  define y where "y = real (p * 2 ^ nat (- e0)) / real (q * 2 ^ nat e0)"
  have "y = x / u"
    unfolding y_def x_def u_def two_powi_split [of e0] by simp
  then have x: "x = y * u" using u by simp
  have "0 < q * 2 ^ nat e0" using assms by simp
  from round_half_even_nearest [OF this, of "p * 2 ^ nat (- e0)" k]
  have near: "\<bar>real m0 - y\<bar> \<le> \<bar>real k - y\<bar>" by (simp only: m0_def y_def)
  have sc: "\<bar>real j * u - x\<bar> = \<bar>real j - y\<bar> * u" for j
  proof -
    have "real j * u - x = (real j - y) * u" by (simp add: x algebra_simps)
    then show ?thesis using u by (simp only: abs_mult abs_of_pos)
  qed
  show ?thesis
    unfolding u_def [symmetric] m0_def [symmetric] x_def [symmetric] sc
    using near u by (simp add: mult_right_mono)
qed

lemma real_less_two_power: "m < 2 ^ n \<Longrightarrow> real m \<le> 2 ^ n"
proof -
  assume "m < 2 ^ n"
  then have "real m < real (2 ^ n)" by (simp only: of_nat_less_iff)
  then show ?thesis by simp
qed

lemma nearest_double_aux:
  fixes x :: real
  assumes near: "\<And>k::nat. \<bar>real m0 * 2 powi e0 - x\<bar> \<le> \<bar>real k * 2 powi e0 - x\<bar>"
    and normal: "- 1074 < e0 \<Longrightarrow> 2 ^ 52 * 2 powi e0 \<le> x"
    and e': "- 1074 \<le> e'" and m': "m' < 2 ^ 53"
  shows "\<bar>real m0 * 2 powi e0 - x\<bar> \<le> \<bar>real m' * 2 powi e' - x\<bar>"
proof (cases "e0 \<le> e'")
  case True
  define k where "k = m' * 2 ^ nat (e' - e0)"
  have "(2::real) powi e' = 2 ^ nat (e' - e0) * 2 powi e0"
    using two_powi_plus [of e0 "nat (e' - e0)"] True by simp
  then have "real k * 2 powi e0 = real m' * 2 powi e'" by (simp add: k_def)
  with near [of k] show ?thesis by simp
next
  case False
  then have "- 1074 < e0" using e' by simp
  from normal [OF this] have x: "2 ^ 52 * 2 powi e0 \<le> x" .
  have a: "(2::real) powi e' \<le> 2 powi (e0 - 1)"
    by (rule two_powi_mono) (use False in simp)
  have b: "(2::real) powi e0 = 2 * 2 powi (e0 - 1)"
    using two_powi_plus [of "e0 - 1" 1] by simp
  have "real m' * 2 powi e' \<le> 2 ^ 53 * 2 powi (e0 - 1)"
    using real_less_two_power [OF m'] a two_powi_pos [of e']
    by (intro mult_mono) simp_all
  then have le: "real m' * 2 powi e' \<le> 2 ^ 52 * 2 powi e0"
    by (simp add: b)
  from near [of "2 ^ 52"] have "\<bar>real m0 * 2 powi e0 - x\<bar> \<le> \<bar>2 ^ 52 * 2 powi e0 - x\<bar>"
    by simp
  with x le show ?thesis by linarith
qed

lemma round_ratio_scaled:
  assumes p: "0 < p" and q: "0 < q"
    and e0_def: "e0 = max (floor_log2 p q - 52) (- 1074)"
    and m0: "m0 = round_half_even (p * 2 ^ nat (- e0)) (q * 2 ^ nat e0)"
  shows "round_ratio s p q =
          (if m0 = 0 then Finite s 0 0
           else if m0 = 2 ^ 53 then (if 971 < e0 + 1 then Infinity s else Finite s (2 ^ 52) (e0 + 1))
           else if 971 < e0 then Infinity s
           else Finite s m0 e0)"
    and "\<bar>real m0 * 2 powi e0 - real p / real q\<bar> \<le> \<bar>real k * 2 powi e0 - real p / real q\<bar>"
    and "m0 \<le> 2 ^ 53"
    and "- 1074 \<le> e0"
    and "- 1074 < e0 \<Longrightarrow> 2 ^ 52 * 2 powi e0 \<le> real p / real q"
    and "- 1074 < e0 \<Longrightarrow> 2 ^ 52 \<le> m0"
proof -
  define l where "l = floor_log2 p q"
  define x where "x = real p / real q"
  define u :: real where "u = 2 powi e0"
  have e0: "e0 = max (l - 52) (- 1074)" by (simp add: e0_def l_def)
  show "round_ratio s p q =
          (if m0 = 0 then Finite s 0 0
           else if m0 = 2 ^ 53 then (if 971 < e0 + 1 then Infinity s else Finite s (2 ^ 52) (e0 + 1))
           else if 971 < e0 then Infinity s
           else Finite s m0 e0)"
  proof -
    from p have "p \<noteq> 0" by simp
    then show ?thesis
      unfolding round_ratio_def Let_def m0 e0_def by (simp only: if_False)
  qed
  have near: "\<bar>real m0 * u - x\<bar> \<le> \<bar>real j * u - x\<bar>" for j
    unfolding m0 u_def x_def by (rule scaled_nearest [OF q])
  then show "\<bar>real m0 * 2 powi e0 - real p / real q\<bar> \<le> \<bar>real k * 2 powi e0 - real p / real q\<bar>"
    by (simp only: u_def x_def)
  have u: "0 < u" by (simp add: u_def two_powi_pos)
  from floor_log2_bounds [OF p q]
  have lb: "2 powi l \<le> x" and ub: "x < 2 powi (l + 1)" by (simp_all add: l_def x_def)
  have "(2::real) powi (l + 1) \<le> 2 powi (e0 + 53)"
    by (rule two_powi_mono) (simp add: e0)
  also have "\<dots> = 2 ^ 53 * u"
    using two_powi_plus [of e0 53] by (simp only: u_def of_nat_numeral)
  finally have xu: "x < 2 ^ 53 * u" using ub by simp
  have near_pow: "\<bar>real m0 * u - x\<bar> \<le> \<bar>2 ^ n * u - x\<bar>" for n
    using near [of "2 ^ n"] by (simp only: of_nat_power of_nat_numeral)
  show "m0 \<le> 2 ^ 53"
  proof (rule ccontr)
    assume "\<not> m0 \<le> 2 ^ 53"
    then have "2 ^ 53 + 1 \<le> m0" by simp
    then have "real (2 ^ 53 + 1) \<le> real m0" by (simp only: of_nat_le_iff)
    then have "2 ^ 53 + 1 \<le> real m0" by (simp only: of_nat_add of_nat_power of_nat_numeral of_nat_1)
    then have "(2 ^ 53 + 1) * u \<le> real m0 * u" using u by (simp only: mult_right_mono less_imp_le)
    then have "2 ^ 53 * u + u \<le> real m0 * u" by (simp only: distrib_right mult_1)
    with near_pow [of 53] xu u show False by linarith
  qed
  show "- 1074 \<le> e0" by (simp add: e0)
  {
    assume n: "- 1074 < e0"
    then have "l = e0 + 52" by (simp add: e0 max_def split: if_splits)
    then have "(2::real) powi l = 2 ^ 52 * u"
      using two_powi_plus [of e0 52] by (simp only: u_def of_nat_numeral)
    with lb have x52: "2 ^ 52 * u \<le> x" by simp
    then show "2 ^ 52 * 2 powi e0 \<le> real p / real q" by (simp only: u_def x_def)
    show "2 ^ 52 \<le> m0"
    proof (rule ccontr)
      assume "\<not> 2 ^ 52 \<le> m0"
      then have "m0 + 1 \<le> 2 ^ 52" by simp
      then have "real (m0 + 1) \<le> real (2 ^ 52)" by (simp only: of_nat_le_iff)
      then have "real m0 + 1 \<le> 2 ^ 52" by (simp only: of_nat_add of_nat_power of_nat_numeral of_nat_1)
      then have "(real m0 + 1) * u \<le> 2 ^ 52 * u" using u by (simp only: mult_right_mono less_imp_le)
      then have "real m0 * u + u \<le> 2 ^ 52 * u" by (simp only: distrib_right mult_1)
      with near_pow [of 52] x52 u show False by linarith
    qed
  }
qed


text \<open>
  A finite result of \<open>round_ratio\<close> carries the given sign, is a double in the form
  described above, and no number \<open>m' * 2 ^ e'\<close> of 53 bits with \<open>- 1074 \<le> e'\<close> is nearer to
  the ratio. The result is an infinity only from \<open>2 ^ 1024 - 2 ^ 970\<close> on.
\<close>

theorem round_ratio_nearest:
  assumes p: "0 < p" and q: "0 < q" and r: "round_ratio s p q = Finite s' m e"
  shows "s' = s"
    and "m = 0 \<and> e = 0 \<or> m < 2 ^ 53 \<and> - 1074 \<le> e \<and> e \<le> 971 \<and> (2 ^ 52 \<le> m \<or> e = - 1074)"
    and "- 1074 \<le> e' \<Longrightarrow> m' < 2 ^ 53 \<Longrightarrow>
         \<bar>real m * 2 powi e - real p / real q\<bar> \<le> \<bar>real m' * 2 powi e' - real p / real q\<bar>"
proof -
  define e0 where "e0 = max (floor_log2 p q - 52) (- 1074)"
  define m0 where "m0 = round_half_even (p * 2 ^ nat (- e0)) (q * 2 ^ nat e0)"
  note f = round_ratio_scaled [OF p q e0_def m0_def]
  from r f(1) [of s] consider
      (zero) "s' = s" "m = 0" "e = 0" "m0 = 0"
    | (carry) "s' = s" "m = 2 ^ 52" "e = e0 + 1" "m0 = 2 ^ 53" "e0 + 1 \<le> 971"
    | (plain) "s' = s" "m = m0" "e = e0" "m0 \<noteq> 2 ^ 53" "e0 \<le> 971"
    by (auto split: if_splits)
  note cases = this
  have val: "real m * 2 powi e = real m0 * 2 powi e0"
  proof (cases rule: cases)
    case zero
    then show ?thesis by simp
  next
    case carry
    have "(2::real) powi (e0 + 1) = 2 * 2 powi e0"
      using two_powi_plus [of e0 1] by simp
    then have "(2::real) ^ 52 * 2 powi (e0 + 1) = 2 ^ 53 * 2 powi e0" by simp
    then show ?thesis
      unfolding carry(2,3,4) by (simp only: of_nat_power of_nat_numeral)
  next
    case plain
    then show ?thesis by simp
  qed
  show "s' = s" by (cases rule: cases) simp_all
  show "m = 0 \<and> e = 0 \<or> m < 2 ^ 53 \<and> - 1074 \<le> e \<and> e \<le> 971 \<and> (2 ^ 52 \<le> m \<or> e = - 1074)"
  proof (cases rule: cases)
    case zero
    then show ?thesis by simp
  next
    case carry
    with f(4) show ?thesis by simp
  next
    case plain
    from f(3) plain(4) have "m0 < 2 ^ 53" by simp
    moreover have "2 ^ 52 \<le> m0 \<or> e0 = - 1074" using f(4) f(6) by linarith
    ultimately show ?thesis using plain f(4) by simp
  qed
  show "\<bar>real m * 2 powi e - real p / real q\<bar> \<le> \<bar>real m' * 2 powi e' - real p / real q\<bar>"
    if "- 1074 \<le> e'" and "m' < 2 ^ 53"
    unfolding val by (rule nearest_double_aux [OF f(2) f(5) that])
qed

theorem round_ratio_overflow:
  assumes p: "0 < p" and q: "0 < q" and r: "round_ratio s p q = Infinity s'"
  shows "s' = s" and "(2 ^ 53 - 1 / 2) * 2 ^ 971 \<le> real p / real q"
proof -
  define e0 where "e0 = max (floor_log2 p q - 52) (- 1074)"
  define m0 where "m0 = round_half_even (p * 2 ^ nat (- e0)) (q * 2 ^ nat e0)"
  define x where "x = real p / real q"
  define u :: real where "u = 2 powi e0"
  note f = round_ratio_scaled [OF p q e0_def m0_def]
  have u: "0 < u" by (simp add: u_def two_powi_pos)
  from r f(1) [of s] consider
      (carry) "s' = s" "m0 = 2 ^ 53" "971 \<le> e0"
    | (plain) "s' = s" "971 < e0"
    by (auto split: if_splits)
  note cases = this
  show "s' = s" by (cases rule: cases) simp_all
  have big: "2 ^ 971 \<le> u" if "971 \<le> e0"
  proof -
    have "(2::real) powi 971 \<le> 2 powi e0" using that by (rule two_powi_mono)
    then show ?thesis by (simp add: u_def)
  qed
  have "(2 ^ 53 - 1 / 2) * 2 ^ 971 \<le> x"
  proof (cases rule: cases)
    case carry
    from f(2) [of "2 ^ 53 - 1"] have "\<bar>real m0 * u - x\<bar> \<le> \<bar>real (2 ^ 53 - 1) * u - x\<bar>"
      by (simp only: u_def x_def)
    moreover have "real (2 ^ 53 - 1) = 2 ^ 53 - 1" by simp
    moreover have "real m0 = 2 ^ 53" by (simp add: carry(2))
    ultimately have "\<bar>2 ^ 53 * u - x\<bar> \<le> \<bar>(2 ^ 53 - 1) * u - x\<bar>" by (simp only:)
    then have "\<bar>2 ^ 53 * u - x\<bar> \<le> \<bar>2 ^ 53 * u - u - x\<bar>" by (simp only: left_diff_distrib mult_1)
    with u have "2 ^ 53 * u - u / 2 \<le> x" by linarith
    moreover have "(2 ^ 53 - 1 / 2) * u = 2 ^ 53 * u - u / 2" by (simp add: left_diff_distrib)
    ultimately have "(2 ^ 53 - 1 / 2) * u \<le> x" by (simp only:)
    moreover have "(2 ^ 53 - 1 / 2) * 2 ^ 971 \<le> (2 ^ 53 - 1 / 2) * u"
      using big [OF carry(3)] by (intro mult_left_mono) simp_all
    ultimately show ?thesis by linarith
  next
    case plain
    then have "- 1074 < e0" by simp
    from f(5) [OF this] have "2 ^ 52 * u \<le> x" by (simp only: u_def x_def)
    moreover have "2 ^ 972 \<le> u"
    proof -
      have "(2::real) powi 972 \<le> 2 powi e0" using plain(2) by (intro two_powi_mono) simp
      then show ?thesis by (simp add: u_def)
    qed
    then have "(2::real) ^ 52 * 2 ^ 972 \<le> 2 ^ 52 * u" by (intro mult_left_mono) simp_all
    moreover have "(2 ^ 53 - 1 / 2) * 2 ^ 971 \<le> (2::real) ^ 52 * 2 ^ 972" by simp
    ultimately show ?thesis by linarith
  qed
  then show "(2 ^ 53 - 1 / 2) * 2 ^ 971 \<le> real p / real q" by (simp only: x_def)
qed

lemma decimal_ratio: "real (n * 10 ^ nat e) / real (10 ^ nat (- e))
    = (if 0 \<le> e then real n * 10 ^ nat e else real n / 10 ^ nat (- e))"
  by simp

lemma abs_num_val:
  "\<bar>num_val x\<bar> = real (nat_of_digits (digits x) * 10 ^ nat (point x - int (length (digits x))))
       / real (10 ^ nat (- (point x - int (length (digits x)))))"
  unfolding decimal_ratio by (simp add: num_val_def Let_def abs_mult)

text \<open>
  Hence the double of a stored number is a double nearest to its decimal value.
\<close>

theorem double_of_nearest:
  assumes "double_of x = Finite s m e"
  shows "s = negative x"
    and "m = 0 \<and> e = 0 \<or> m < 2 ^ 53 \<and> - 1074 \<le> e \<and> e \<le> 971 \<and> (2 ^ 52 \<le> m \<or> e = - 1074)"
    and "- 1074 \<le> e' \<Longrightarrow> m' < 2 ^ 53 \<Longrightarrow>
         \<bar>real m * 2 powi e - \<bar>num_val x\<bar>\<bar> \<le> \<bar>real m' * 2 powi e' - \<bar>num_val x\<bar>\<bar>"
proof -
  define n where "n = nat_of_digits (digits x)"
  define k where "k = point x - int (length (digits x))"
  have d: "round_ratio (negative x) (n * 10 ^ nat k) (10 ^ nat (- k)) = Finite s m e"
    using assms by (simp add: double_of_def decimal_def n_def k_def)
  have q: "0 < (10::nat) ^ nat (- k)" by simp
  have v: "\<bar>num_val x\<bar> = real (n * 10 ^ nat k) / real (10 ^ nat (- k))"
    unfolding n_def k_def by (rule abs_num_val)
  show "s = negative x"
    and "m = 0 \<and> e = 0 \<or> m < 2 ^ 53 \<and> - 1074 \<le> e \<and> e \<le> 971 \<and> (2 ^ 52 \<le> m \<or> e = - 1074)"
    and "- 1074 \<le> e' \<Longrightarrow> m' < 2 ^ 53 \<Longrightarrow>
         \<bar>real m * 2 powi e - \<bar>num_val x\<bar>\<bar> \<le> \<bar>real m' * 2 powi e' - \<bar>num_val x\<bar>\<bar>"
  proof (atomize (full), cases "n = 0")
    case True
    with d have "s = negative x" "m = 0" "e = 0" by (simp_all add: round_ratio_def)
    moreover from True have "\<bar>num_val x\<bar> = 0" by (simp add: v)
    ultimately show "s = negative x
      \<and> (m = 0 \<and> e = 0 \<or> m < 2 ^ 53 \<and> - 1074 \<le> e \<and> e \<le> 971 \<and> (2 ^ 52 \<le> m \<or> e = - 1074))
      \<and> (- 1074 \<le> e' \<longrightarrow> m' < 2 ^ 53 \<longrightarrow>
         \<bar>real m * 2 powi e - \<bar>num_val x\<bar>\<bar> \<le> \<bar>real m' * 2 powi e' - \<bar>num_val x\<bar>\<bar>)"
      by simp
  next
    case False
    then have p: "0 < n * 10 ^ nat k" by simp
    from round_ratio_nearest [OF p q d]
    show "s = negative x
      \<and> (m = 0 \<and> e = 0 \<or> m < 2 ^ 53 \<and> - 1074 \<le> e \<and> e \<le> 971 \<and> (2 ^ 52 \<le> m \<or> e = - 1074))
      \<and> (- 1074 \<le> e' \<longrightarrow> m' < 2 ^ 53 \<longrightarrow>
         \<bar>real m * 2 powi e - \<bar>num_val x\<bar>\<bar> \<le> \<bar>real m' * 2 powi e' - \<bar>num_val x\<bar>\<bar>)"
      unfolding v by blast
  qed
qed

subsection \<open>Evaluation on numerals\<close>

text \<open>
  The rules by which the operations are evaluated on numerals. They unfold a definition
  only when its arguments are numerals.
\<close>

lemma bit_length_numeral: "bit_length (numeral n) = Suc (bit_length (numeral n div 2))"
  by (subst bit_length.simps) simp

lemmas floor_log2_eval =
  floor_log2_def [of "numeral p" "numeral q"] floor_log2_def [of "numeral p" "Suc 0"]
  floor_log2_def [of "Suc 0" "numeral q"] floor_log2_def [of "Suc 0" "Suc 0"] for p q

lemmas round_half_even_eval =
  round_half_even_def [of "numeral n" "numeral d"] round_half_even_def [of "numeral n" "Suc 0"]
  round_half_even_def [of "Suc 0" "numeral d"] round_half_even_def [of "Suc 0" "Suc 0"] for n d

lemma round_ratio_0: "round_ratio s 0 q = Finite s 0 0"
  by (simp add: round_ratio_def)

lemmas round_ratio_eval =
  round_ratio_0
  round_ratio_def [of _ "numeral p" "numeral q"] round_ratio_def [of _ "numeral p" "Suc 0"]
  round_ratio_def [of _ "Suc 0" "numeral q"] round_ratio_def [of _ "Suc 0" "Suc 0"] for p q

lemma Suc_Suc_0: "Suc (Suc 0) = 2"
  by simp

lemmas double_eval = Suc_Suc_0 bit_length_0 bit_length_1 bit_length_numeral floor_log2_eval
  round_half_even_eval round_ratio_eval decimal_def Let_def finite_val_def signed_def dsub_def
  min_step_def max_step_def Math_min_def Math_max_def

subsection \<open>Comparison, least and greatest argument\<close>

lemma dle_dlt_trans: "dle a b \<Longrightarrow> dlt b c \<Longrightarrow> dlt a c"
  by (cases a; cases b; cases c) auto

lemma dlt_NaN: "\<not> dlt NaN x" "\<not> dlt x NaN"
  by (cases x; simp)+

lemma dle_refl: "x \<noteq> NaN \<Longrightarrow> dle x x"
  by (cases x) auto

lemma dle_trans: "dle a b \<Longrightarrow> dle b c \<Longrightarrow> dle a c"
  by (cases a; cases b; cases c) auto

lemma dlt_dle: "dlt a b \<Longrightarrow> dle a b"
  by (cases a; cases b) auto

lemma not_dlt_dle: "a \<noteq> NaN \<Longrightarrow> b \<noteq> NaN \<Longrightarrow> \<not> dlt a b \<Longrightarrow> dle b a"
  by (cases a; cases b) auto

lemma min_step_props:
  assumes "x \<noteq> NaN" and "lo \<noteq> NaN"
  shows "min_step x lo \<noteq> NaN" and "min_step x lo = x \<or> min_step x lo = lo"
    and "dle (min_step x lo) x" and "dle (min_step x lo) lo"
  using assms
  by (auto simp: min_step_def finite_val_def dle_refl dlt_dle not_dlt_dle)

lemma max_step_props:
  assumes "x \<noteq> NaN" and "hi \<noteq> NaN"
  shows "max_step x hi \<noteq> NaN" and "max_step x hi = x \<or> max_step x hi = hi"
    and "dle x (max_step x hi)" and "dle hi (max_step x hi)"
  using assms
  by (auto simp: max_step_def finite_val_def dle_refl dlt_dle not_dlt_dle)

lemma fold_min_step:
  assumes "acc \<noteq> NaN" and "NaN \<notin> set xs"
  shows "fold min_step xs acc \<noteq> NaN \<and> fold min_step xs acc \<in> insert acc (set xs)
       \<and> dle (fold min_step xs acc) acc \<and> (\<forall>x\<in>set xs. dle (fold min_step xs acc) x)"
  using assms
proof (induction xs arbitrary: acc)
  case Nil
  then show ?case by (simp add: dle_refl)
next
  case (Cons x xs)
  from Cons.prems have x: "x \<noteq> NaN" and xs: "NaN \<notin> set xs" by auto
  note step = min_step_props [OF x Cons.prems(1)]
  from Cons.IH [OF step(1) xs] step(2,3,4) show ?case
    by (auto intro: dle_trans)
qed

lemma fold_max_step:
  assumes "acc \<noteq> NaN" and "NaN \<notin> set xs"
  shows "fold max_step xs acc \<noteq> NaN \<and> fold max_step xs acc \<in> insert acc (set xs)
       \<and> dle acc (fold max_step xs acc) \<and> (\<forall>x\<in>set xs. dle x (fold max_step xs acc))"
  using assms
proof (induction xs arbitrary: acc)
  case Nil
  then show ?case by (simp add: dle_refl)
next
  case (Cons x xs)
  from Cons.prems have x: "x \<noteq> NaN" and xs: "NaN \<notin> set xs" by auto
  note step = max_step_props [OF x Cons.prems(1)]
  from Cons.IH [OF step(1) xs] step(2,3,4) show ?case
    by (auto intro: dle_trans)
qed

lemma dle_Infinity: "dle (Infinity False) x \<Longrightarrow> x = Infinity False"
  "dle x (Infinity True) \<Longrightarrow> x = Infinity True"
  by (cases x; simp)+

lemma Math_min_least:
  assumes "xs \<noteq> []" and "NaN \<notin> set xs"
  shows "Math_min xs \<in> set xs \<and> (\<forall>x\<in>set xs. dle (Math_min xs) x)"
proof -
  have f: "fold min_step xs (Infinity False) \<in> insert (Infinity False) (set xs)"
    and l: "\<forall>x\<in>set xs. dle (fold min_step xs (Infinity False)) x"
    using fold_min_step [OF _ assms(2), of "Infinity False"] by simp_all
  have "fold min_step xs (Infinity False) \<in> set xs"
  proof (cases "fold min_step xs (Infinity False) = Infinity False")
    case True
    from assms(1) have "hd xs \<in> set xs" by simp
    with l True have "hd xs = Infinity False" by (auto dest: dle_Infinity)
    with \<open>hd xs \<in> set xs\<close> True show ?thesis by simp
  next
    case False
    with f show ?thesis by simp
  qed
  with l show ?thesis by (simp add: Math_min_def)
qed

lemma Math_max_greatest:
  assumes "xs \<noteq> []" and "NaN \<notin> set xs"
  shows "Math_max xs \<in> set xs \<and> (\<forall>x\<in>set xs. dle x (Math_max xs))"
proof -
  have f: "fold max_step xs (Infinity True) \<in> insert (Infinity True) (set xs)"
    and l: "\<forall>x\<in>set xs. dle x (fold max_step xs (Infinity True))"
    using fold_max_step [OF _ assms(2), of "Infinity True"] by simp_all
  have "fold max_step xs (Infinity True) \<in> set xs"
  proof (cases "fold max_step xs (Infinity True) = Infinity True")
    case True
    from assms(1) have "hd xs \<in> set xs" by simp
    with l True have "hd xs = Infinity True" by (auto dest: dle_Infinity)
    with \<open>hd xs \<in> set xs\<close> True show ?thesis by simp
  next
    case False
    with f show ?thesis by simp
  qed
  with l show ?thesis by (simp add: Math_max_def)
qed

lemma round_ratio_not_NaN: "round_ratio s p q \<noteq> NaN"
  by (simp add: round_ratio_def Let_def)

lemma double_of_not_NaN: "double_of x \<noteq> NaN"
  by (simp add: double_of_def decimal_def round_ratio_not_NaN)


subsection \<open>Bounds\<close>

text \<open>
  Rounding does not pass a double: a ratio that is at most a double is rounded to at most
  that double. So a sum of two doubles is bounded by a double that bounds the exact sum,
  and so for the half.
\<close>

lemma largest_double:
  assumes "mb < 2 ^ 53" and "eb \<le> 971"
  shows "real mb * 2 powi eb \<le> (2 ^ 53 - 1) * 2 ^ 971"
proof -
  from assms(1) have "mb + 1 \<le> 2 ^ 53" by simp
  then have "real (mb + 1) \<le> real (2 ^ 53)" by (simp only: of_nat_le_iff)
  then have m: "real mb \<le> 2 ^ 53 - 1" by simp
  have "(2::real) powi eb \<le> 2 powi 971" using assms(2) by (rule two_powi_mono)
  then have e: "(2::real) powi eb \<le> 2 ^ 971" by simp
  show ?thesis
    using m e two_powi_pos [of eb] by (intro mult_mono) simp_all
qed

lemma round_ratio_within:
  assumes q: "0 < q" and x: "real p / real q \<le> real mb * 2 powi eb"
    and mb: "mb < 2 ^ 53" and eb: "- 1074 \<le> eb" "eb \<le> 971"
  shows "bounded_by (real mb * 2 powi eb) (round_ratio s p q)"
proof (cases "p = 0")
  case True
  have "0 \<le> real mb * 2 powi eb" using two_powi_pos [of eb] by simp
  with True show ?thesis by (simp add: round_ratio_0 bounded_by_def)
next
  case False
  then have p: "0 < p" by simp
  show ?thesis
  proof (cases "round_ratio s p q")
    case NaN
    then show ?thesis by (simp add: round_ratio_not_NaN)
  next
    case (Infinity s')
    from round_ratio_overflow(2) [OF p q Infinity]
    have "(2 ^ 53 - 1 / 2) * 2 ^ 971 \<le> real p / real q" .
    moreover have "((2::real) ^ 53 - 1) * 2 ^ 971 < (2 ^ 53 - 1 / 2) * 2 ^ 971" by simp
    ultimately show ?thesis using x largest_double [OF mb eb(2)] by linarith
  next
    case (Finite s' m e)
    from round_ratio_nearest(3) [OF p q Finite eb(1) mb] x
    have "real m * 2 powi e \<le> real mb * 2 powi eb" by linarith
    with Finite show ?thesis by (simp add: bounded_by_def)
  qed
qed

lemma double_of_within:
  assumes "\<bar>num_val x\<bar> \<le> real mb * 2 powi eb" and "mb < 2 ^ 53" and "- 1074 \<le> eb" and "eb \<le> 971"
  shows "bounded_by (real mb * 2 powi eb) (double_of x)"
  unfolding double_of_def decimal_def
  by (rule round_ratio_within [OF _ _ assms(2,3,4)]) (use assms(1) in \<open>simp_all only: abs_num_val zero_less_power zero_less_numeral\<close>)

lemma bounded_by_Finite:
  "bounded_by b d \<Longrightarrow> \<exists>s m e. d = Finite s m e \<and> real m * 2 powi e \<le> b"
  by (cases d) (simp_all add: bounded_by_def)

lemma signed_abs: "\<bar>real_of_int (signed s m)\<bar> = real m"
  by (simp add: signed_def)

lemma aligned:
  assumes "k \<le> e"
  shows "real_of_int (signed s m * 2 ^ nat (e - k)) * 2 powi k = real_of_int (signed s m) * 2 powi e"
proof -
  have "(2::real) powi e = 2 ^ nat (e - k) * 2 powi k"
    using two_powi_plus [of k "nat (e - k)"] assms by simp
  then show ?thesis by simp
qed

lemma dadd_bounded:
  assumes a: "bounded_by b1 x" and b: "bounded_by b2 y"
    and le: "b1 + b2 \<le> real mb * 2 powi eb"
    and mb: "mb < 2 ^ 53" and eb: "- 1074 \<le> eb" "eb \<le> 971"
  shows "bounded_by (real mb * 2 powi eb) (dadd x y)"
proof -
  from bounded_by_Finite [OF a] obtain s m e where
    x: "x = Finite s m e" and xb: "real m * 2 powi e \<le> b1" by blast
  from bounded_by_Finite [OF b] obtain s' m' e' where
    y: "y = Finite s' m' e'" and yb: "real m' * 2 powi e' \<le> b2" by blast
  define k where "k = min e e'"
  define t where "t = signed s m * 2 ^ nat (e - k) + signed s' m' * 2 ^ nat (e' - k)"
  have sum: "dadd x y = (if t = 0 then Finite (s \<and> s') 0 0
                         else round_ratio (t < 0) (nat \<bar>t\<bar> * 2 ^ nat k) (2 ^ nat (- k)))"
    unfolding x y dadd.simps Let_def k_def t_def ..
  have pos: "0 \<le> real mb * 2 powi eb" using two_powi_pos [of eb] by simp
  show ?thesis
  proof (cases "t = 0")
    case True
    with sum pos show ?thesis by (simp add: bounded_by_def)
  next
    case False
    have "real_of_int t * 2 powi k
        = real_of_int (signed s m) * 2 powi e + real_of_int (signed s' m') * 2 powi e'"
      unfolding t_def of_int_add distrib_right
      by (simp only: aligned k_def min.cobounded1 min.cobounded2)
    then have "\<bar>real_of_int t * 2 powi k\<bar>
        \<le> \<bar>real_of_int (signed s m) * 2 powi e\<bar> + \<bar>real_of_int (signed s' m') * 2 powi e'\<bar>"
      by (simp only: abs_triangle_ineq)
    also have "\<dots> = real m * 2 powi e + real m' * 2 powi e'"
      using two_powi_pos [of e] two_powi_pos [of e']
      by (simp only: abs_mult signed_abs abs_of_pos)
    finally have tb: "\<bar>real_of_int t * 2 powi k\<bar> \<le> real mb * 2 powi eb"
      using xb yb le by linarith
    have "real (nat \<bar>t\<bar> * 2 ^ nat k) / real (2 ^ nat (- k)) = real (nat \<bar>t\<bar>) * 2 powi k"
      by (simp add: two_powi_split [of k])
    also have "\<dots> = \<bar>real_of_int t * 2 powi k\<bar>"
      using two_powi_pos [of k] by (simp add: abs_mult)
    finally have r: "real (nat \<bar>t\<bar> * 2 ^ nat k) / real (2 ^ nat (- k)) \<le> real mb * 2 powi eb"
      using tb by simp
    have "bounded_by (real mb * 2 powi eb) (round_ratio (t < 0) (nat \<bar>t\<bar> * 2 ^ nat k) (2 ^ nat (- k)))"
      by (rule round_ratio_within [OF _ r mb eb]) simp
    with False sum show ?thesis by simp
  qed
qed

lemma half_bounded:
  assumes a: "bounded_by b x" and le: "b / 2 \<le> real mb * 2 powi eb"
    and mb: "mb < 2 ^ 53" and eb: "- 1074 \<le> eb" "eb \<le> 971"
  shows "bounded_by (real mb * 2 powi eb) (ddiv x (Finite False (2 ^ 52) (- 51)))"
proof -
  from bounded_by_Finite [OF a] obtain s m e where
    x: "x = Finite s m e" and xb: "real m * 2 powi e \<le> b" by blast
  have q: "0 < (2::nat) ^ 52 * 2 ^ nat (- 51 - e)" by simp
  have n: "e - - 51 = e + 51" "- 51 - e = - (e + 51)" by simp_all
  have "real (m * 2 ^ nat (e - - 51)) / real (2 ^ 52 * 2 ^ nat (- 51 - e))
      = real m * (2 ^ nat (e + 51) / 2 ^ nat (- (e + 51))) / 2 ^ 52"
    unfolding n by simp
  also have "\<dots> = real m * 2 powi (e + 51) / 2 ^ 52"
    by (simp only: two_powi_split [of "e + 51"])
  also have "\<dots> = real m * 2 powi e / 2"
    using two_powi_plus [of e 51] by simp
  finally have "real (m * 2 ^ nat (e - - 51)) / real (2 ^ 52 * 2 ^ nat (- 51 - e)) \<le> real mb * 2 powi eb"
    using xb le by simp
  from round_ratio_within [OF q this mb eb, of "s \<noteq> False"] show ?thesis
    unfolding x ddiv.simps by simp
qed

lemma bounded_by_dle:
  assumes "bounded_by (real mb * 2 powi eb) d"
  shows "dle (Finite True mb eb) d \<and> dle d (Finite False mb eb)"
proof -
  from bounded_by_Finite [OF assms] obtain s m e where
    d: "d = Finite s m e" and b: "real m * 2 powi e \<le> real mb * 2 powi eb" by blast
  define A where "A = real m * 2 powi e"
  define B where "B = real mb * 2 powi eb"
  have A: "0 \<le> A" using two_powi_pos [of e] by (simp add: A_def)
  have fv: "finite_val s m e = (if s then - A else A)" "finite_val True mb eb = - B"
    "finite_val False mb eb = B"
    by (simp_all add: finite_val_def A_def B_def)
  from b have "A \<le> B" by (simp only: A_def B_def)
  with A show ?thesis unfolding d dle.simps fv by (cases s) simp_all
qed

lemma least_and_greatest:
  assumes "locs \<noteq> []"
  shows "Math_min (map (\<lambda>l. double_of (f l)) locs) \<in> set (map (\<lambda>l. double_of (f l)) locs)
     \<and> Math_max (map (\<lambda>l. double_of (f l)) locs) \<in> set (map (\<lambda>l. double_of (f l)) locs)
     \<and> (\<forall>l\<in>set locs. dle (Math_min (map (\<lambda>l. double_of (f l)) locs)) (double_of (f l))
                     \<and> dle (double_of (f l)) (Math_max (map (\<lambda>l. double_of (f l)) locs)))"
proof -
  let ?xs = "map (\<lambda>l. double_of (f l)) locs"
  have ne: "?xs \<noteq> []" using assms by simp
  have nn: "NaN \<notin> set ?xs" using double_of_not_NaN [THEN not_sym] by auto
  from Math_min_least [OF ne nn] Math_max_greatest [OF ne nn] show ?thesis by auto
qed


lemma bound_doubles:
  "decimal False 90 0 = Finite False 6333186975989760 (- 46)"
  "decimal True 90 0 = Finite True 6333186975989760 (- 46)"
  "decimal False 180 0 = Finite False 6333186975989760 (- 45)"
  "decimal True 180 0 = Finite True 6333186975989760 (- 45)"
  "decimal False 2 0 = Finite False (2 ^ 52) (- 51)"
  by (simp_all add: double_eval)

lemma bound_values:
  "real 6333186975989760 * 2 powi (- 46) = 90"
  "real 6333186975989760 * 2 powi (- 45) = 180"
  by (simp_all add: power_int_minus)

lemma midpoint_bounded:
  assumes ne: "locs \<noteq> []"
    and b: "\<forall>l\<in>set locs. \<bar>num_val (f l)\<bar> \<le> real mb * 2 powi eb"
    and mb: "mb < 2 ^ 53" and eb: "- 1074 \<le> eb" "eb + 1 \<le> 971"
  shows "bounded_by (real mb * 2 powi eb)
           (ddiv (dadd (Math_min (map (\<lambda>l. double_of (f l)) locs))
                       (Math_max (map (\<lambda>l. double_of (f l)) locs)))
                 (decimal False 2 0))"
proof -
  let ?xs = "map (\<lambda>l. double_of (f l)) locs"
  have eb': "eb \<le> 971" "- 1074 \<le> eb + 1" using eb by simp_all
  have each: "bounded_by (real mb * 2 powi eb) x" if "x \<in> set ?xs" for x
  proof -
    from that obtain l where "l \<in> set locs" and "x = double_of (f l)" by auto
    with b double_of_within [OF _ mb eb(1) eb'(1)] show ?thesis by simp
  qed
  from least_and_greatest [OF ne, of f]
  have lo: "bounded_by (real mb * 2 powi eb) (Math_min ?xs)"
    and hi: "bounded_by (real mb * 2 powi eb) (Math_max ?xs)"
    by (simp_all only: each)
  have twice: "real mb * 2 powi eb + real mb * 2 powi eb \<le> real mb * 2 powi (eb + 1)"
    using two_powi_plus [of eb 1] by simp
  note sum = dadd_bounded [OF lo hi twice mb eb'(2) eb(2)]
  have "real mb * 2 powi (eb + 1) / 2 \<le> real mb * 2 powi eb"
    using two_powi_plus [of eb 1] by simp
  from half_bounded [OF sum this mb eb(1) eb'(1)] show ?thesis
    by (simp only: bound_doubles(5))
qed


section \<open>Properties of the viewport fitter\<close>

lemma tier_chain:
  "(if dlt sp (decimal False 1 (- 2)) then (if m then 11 else 13)
    else if dlt sp (decimal False 1 (- 1)) then (if m then 8 else 10)
    else if dlt sp (decimal False 1 0) then (if m then 5 else 7)
    else if dlt sp (decimal False 10 0) then (if m then 3 else 5)
    else (if m then 2 else 3)) = tier_zoom m (tier_of_span sp)"
  by (simp add: tier_of_span_def)

lemma zoom_tiers:
  "zoom (mapBounds m (l0 # l1 # ls)) = tier_zoom m (tier_of_span (span_of (l0 # l1 # ls)))"
  unfolding span_of_def lat_span_def lng_span_def tier_chain [symmetric] mapBounds_def
  by (simp only: list.case Let_def viewport.simps)

lemma zoom_tiers_length:
  assumes "2 \<le> length locs"
  shows "zoom (mapBounds m locs) = tier_zoom m (tier_of_span (span_of locs))"
proof -
  from assms obtain l0 l1 ls where "locs = l0 # l1 # ls"
    by (cases locs; cases "tl locs") auto
  then show ?thesis by (simp only: zoom_tiers)
qed

lemma center_of_many:
  "center (mapBounds m (l0 # l1 # ls)) =
     (ddiv (dadd (Math_min (map (\<lambda>l. double_of (lat l)) (l0 # l1 # ls)))
                 (Math_max (map (\<lambda>l. double_of (lat l)) (l0 # l1 # ls)))) (decimal False 2 0),
      ddiv (dadd (Math_min (map (\<lambda>l. double_of (lng l)) (l0 # l1 # ls)))
                 (Math_max (map (\<lambda>l. double_of (lng l)) (l0 # l1 # ls)))) (decimal False 2 0))"
  unfolding mapBounds_def by (simp only: list.case Let_def viewport.simps)

lemma tier_mono:
  "dle s1 s2 \<Longrightarrow> tier_zoom m (tier_of_span s2) \<le> tier_zoom m (tier_of_span s1)"
  by (auto simp: tier_of_span_def dest: dle_dlt_trans)

lemma two_points:
  "mapBounds m [place (Number False [] 0) (Number False [] 0) ''A'', place (Number False [] 0) (Number False [1] 2) ''B'']
   = \<lparr>center = (decimal False 0 0, decimal False 5 0), zoom = (if m then 2 else 3)\<rparr>"
  by (simp add: mapBounds_def place_def double_of_def nat_of_digits_def double_eval)

lemma two_points_span:
  "span_of [place (Number False [] 0) (Number False [] 0) ''A'', place (Number False [] 0) (Number False [1] 2) ''B'']
     = decimal False 10 0"
  by (simp add: span_of_def lat_span_def lng_span_def place_def double_of_def nat_of_digits_def double_eval)

lemma tier_of_ten: "tier_of_span (decimal False 10 0) = Continental"
  by (simp add: tier_of_span_def double_eval)

text \<open>
  C7. On two or more points the zoom is the zoom of the tier of
  \<open>span = max latSpan lngSpan\<close>, by the thresholds 0.01, 0.1, 1 and 10, where the spans
  are the doubles that the source computes; for either density flag a larger span never
  gives a larger zoom; and the points (0,0) and (0,10) have span 10, which is not below
  10 and so falls in the continental tier, with center (0,5).
\<close>

theorem mapBounds_zoom_tiers:
  "(2 \<le> length locs \<longrightarrow>
      zoom (mapBounds m locs) = tier_zoom m (tier_of_span (span_of locs)))
   \<and> (2 \<le> length locs \<and> 2 \<le> length locs' \<and> dle (span_of locs) (span_of locs') \<longrightarrow>
      zoom (mapBounds m locs') \<le> zoom (mapBounds m locs))
   \<and> span_of [place (Number False [] 0) (Number False [] 0) ''A'',
               place (Number False [] 0) (Number False [1] 2) ''B''] = decimal False 10 0
   \<and> tier_of_span (decimal False 10 0) = Continental
   \<and> mapBounds m [place (Number False [] 0) (Number False [] 0) ''A'',
                   place (Number False [] 0) (Number False [1] 2) ''B'']
       = \<lparr>center = (decimal False 0 0, decimal False 5 0), zoom = (if m then 2 else 3)\<rparr>"
proof -
  have a: "2 \<le> length locs \<longrightarrow>
      zoom (mapBounds m locs) = tier_zoom m (tier_of_span (span_of locs))"
    by (simp add: zoom_tiers_length)
  have b: "2 \<le> length locs \<and> 2 \<le> length locs' \<and> dle (span_of locs) (span_of locs') \<longrightarrow>
      zoom (mapBounds m locs') \<le> zoom (mapBounds m locs)"
    by (simp add: zoom_tiers_length tier_mono)
  show ?thesis using a b tier_of_ten two_points [of m] two_points_span by simp
qed

lemma half_span:
  "span_of [place (Number False [] 0) (Number False [] 0) ''A'', place (Number False [5] 0) (Number False [] 0) ''B'']
     = decimal False 5 (- 1)"
  by (simp add: span_of_def lat_span_def lng_span_def place_def double_of_def nat_of_digits_def double_eval)

lemma half_le_ten: "dle (decimal False 5 (- 1)) (decimal False 10 0)"
  by (simp add: double_eval)

lemma half_zoom:
  "zoom (mapBounds False [place (Number False [] 0) (Number False [] 0) ''A'', place (Number False [5] 0) (Number False [] 0) ''B'']) = 7"
  by (simp add: mapBounds_def place_def double_of_def nat_of_digits_def double_eval)

theorem mapBounds_zoom_tiers_witness:
  "2 \<le> length [place (Number False [] 0) (Number False [] 0) ''A'', place (Number False [5] 0) (Number False [] 0) ''B'']
   \<and> 2 \<le> length [place (Number False [] 0) (Number False [] 0) ''A'', place (Number False [] 0) (Number False [1] 2) ''B'']
   \<and> dle (span_of [place (Number False [] 0) (Number False [] 0) ''A'', place (Number False [5] 0) (Number False [] 0) ''B''])
         (span_of [place (Number False [] 0) (Number False [] 0) ''A'', place (Number False [] 0) (Number False [1] 2) ''B''])
   \<and> zoom (mapBounds False [place (Number False [] 0) (Number False [] 0) ''A'', place (Number False [5] 0) (Number False [] 0) ''B'']) = 7
   \<and> zoom (mapBounds False [place (Number False [] 0) (Number False [] 0) ''A'', place (Number False [] 0) (Number False [1] 2) ''B'']) = 3"
  using mapBounds_zoom_tiers [of "[place (Number False [] 0) (Number False [] 0) ''A'', place (Number False [5] 0) (Number False [] 0) ''B'']" False
    "[place (Number False [] 0) (Number False [] 0) ''A'', place (Number False [] 0) (Number False [1] 2) ''B'']"]
    half_span half_le_ten half_zoom
  by simp

text \<open>
  C6, as the code has it. The empty set gives the fallback center (46.5197, 6.6323) with
  zoom 4, and 3 in compact mode; a single point is the center, with zoom 10, and 8 in
  compact mode: two levels lower, not one.
\<close>

theorem mapBounds_degenerate:
  "mapBounds m [] = \<lparr>center = (decimal False 465197 (- 4), decimal False 66323 (- 4)),
                      zoom = (if m then 3 else 4)\<rparr>
   \<and> mapBounds m [l] = \<lparr>center = (double_of (lat l), double_of (lng l)), zoom = (if m then 8 else 10)\<rparr>
   \<and> zoom (mapBounds True []) + 1 = zoom (mapBounds False [])
   \<and> zoom (mapBounds True [l]) + 2 = zoom (mapBounds False [l])"
  by (simp add: mapBounds_def)

text \<open>
  C6 as stated fails: for a single point the compact zoom is not one level below the
  regular zoom.
\<close>

theorem mapBounds_singleton_not_one_step:
  "zoom (mapBounds True [place (Number False [1] 1) (Number False [2] 1) ''A'']) + 1
     \<noteq> zoom (mapBounds False [place (Number False [1] 1) (Number False [2] 1) ''A''])"
  by (simp add: mapBounds_def)


section \<open>Properties of the location store\<close>

lemma trim_sample: "trim (js '' Home '') = js ''Home''"
  by (simp add: trim_def js_def is_js_whitespace_def)

lemma filter_enumerate_out: "(\<forall>i. n \<le> i \<and> i < n + length xs \<longrightarrow> int i \<noteq> idx) \<Longrightarrow>
   map snd (filter (\<lambda>(i, _). int i \<noteq> idx) (enumerate n xs)) = xs"
  by (induction xs arbitrary: n) auto

lemma filter_enumerate_at:
  "map snd (filter (\<lambda>(i, _). int i \<noteq> idx) (enumerate n xs)) =
     (if int n \<le> idx \<and> idx < int n + int (length xs)
      then take (nat idx - n) xs @ drop (Suc (nat idx - n)) xs else xs)"
proof (induction xs arbitrary: n)
  case Nil
  then show ?case by simp
next
  case (Cons x xs)
  show ?case
  proof (cases "int n = idx")
    case True
    then have "map snd (filter (\<lambda>(i, _). int i \<noteq> idx) (enumerate (Suc n) xs)) = xs"
      by (intro filter_enumerate_out) auto
    with True show ?thesis by auto
  next
    case False
    show ?thesis
    proof (cases "int (Suc n) \<le> idx \<and> idx < int (Suc n) + int (length xs)")
      case True
      then have "nat idx - n = Suc (nat idx - Suc n)" by linarith
      with True False Cons.IH [of "Suc n"] show ?thesis by simp
    next
      case out: False
      with False Cons.IH [of "Suc n"] show ?thesis by auto
    qed
  qed
qed

lemma deleteLocation_take_drop:
  "mapLocations (deleteLocation idx st) =
     (if 0 \<le> idx \<and> idx < int (length (mapLocations st))
      then take (nat idx) (mapLocations st) @ drop (Suc (nat idx)) (mapLocations st)
      else mapLocations st)"
  by (simp add: deleteLocation_def filter_enumerate_at)

lemma indexOf_notin: "r \<notin> set xs \<Longrightarrow> indexOf (xs @ [r]) r = int (length xs)"
  by (induction xs) (auto simp: Let_def)

lemma addLocation_appends:
  assumes "addLocation pf st = (None, st')"
  shows "mapLocations st' = mapLocations st @ [last (mapLocations st')]"
  using assms
  by (auto simp: addLocation_def Let_def split: option.splits if_splits)

text \<open>
  C9, as the code has it. A successful add appends one record; deleting at the index of
  the appended record (the old length) gives back the sequence before the add; deleting
  at the index of the first occurrence of the record does so when the record was not in
  the store already.
\<close>

theorem add_then_delete_restores:
  assumes "addLocation pf st = (None, st')"
  shows "mapLocations st' = mapLocations st @ [last (mapLocations st')]
    \<and> mapLocations (deleteLocation (int (length (mapLocations st))) st') = mapLocations st
    \<and> (last (mapLocations st') \<notin> set (mapLocations st) \<longrightarrow>
         mapLocations (deleteLocation (indexOf (mapLocations st') (last (mapLocations st'))) st')
           = mapLocations st)"
proof -
  let ?r = "last (mapLocations st')"
  have app: "mapLocations st' = mapLocations st @ [?r]"
    by (rule addLocation_appends [OF assms])
  have len: "length (mapLocations st') = Suc (length (mapLocations st))"
    by (subst app) simp
  have del: "mapLocations (deleteLocation (int (length (mapLocations st))) st') = mapLocations st"
    unfolding deleteLocation_take_drop len by (subst (1 2) app) simp
  have "indexOf (mapLocations st') ?r = int (length (mapLocations st))"
    if "?r \<notin> set (mapLocations st)"
    using indexOf_notin [OF that] app by simp
  with app del show ?thesis by simp
qed

theorem add_then_delete_restores_witness:
  "addLocation sample_parseFloat ((initialApp False)\<lparr>newLocation := sample_form\<rparr>)
      = (None, (initialApp False)\<lparr>mapLocations := defaultLocations @ [home], showAddLocationForm := False\<rparr>)
   \<and> home \<notin> set defaultLocations
   \<and> mapLocations (deleteLocation (indexOf (defaultLocations @ [home]) home)
         ((initialApp False)\<lparr>mapLocations := defaultLocations @ [home], showAddLocationForm := False\<rparr>))
       = defaultLocations"
proof -
  have add: "addLocation sample_parseFloat ((initialApp False)\<lparr>newLocation := sample_form\<rparr>)
      = (None, (initialApp False)\<lparr>mapLocations := defaultLocations @ [home], showAddLocationForm := False\<rparr>)"
    by (simp add: addLocation_def sample_parseFloat_def sample_form_def initialApp_def trim_sample
        home_def place_def num_val_def nat_of_digits_def js_def trim_def is_js_whitespace_def)
  have notin: "home \<notin> set defaultLocations"
    by (simp add: home_def place_def defaultLocations_def js_def)
  show ?thesis
    using add_then_delete_restores [OF add] add notin
    by (simp add: initialApp_def)
qed

text \<open>
  C9 as stated fails when an equal record is already stored before another record:
  the first occurrence is the older one, and deleting it reorders the sequence.
\<close>

theorem add_then_delete_first_occurrence_counterexample:
  "addLocation sample_parseFloat ((initialApp False)\<lparr>mapLocations := [home, work], newLocation := sample_form\<rparr>)
      = (None, (initialApp False)\<lparr>mapLocations := [home, work, home], showAddLocationForm := False\<rparr>)
   \<and> indexOf [home, work, home] home = 0
   \<and> mapLocations (deleteLocation (indexOf [home, work, home] home)
         ((initialApp False)\<lparr>mapLocations := [home, work, home], showAddLocationForm := False\<rparr>))
       = [work, home]
   \<and> [work, home] \<noteq> [home, work]"
  by (simp add: addLocation_def sample_parseFloat_def sample_form_def initialApp_def trim_sample
        home_def work_def place_def num_val_def nat_of_digits_def js_def trim_def is_js_whitespace_def deleteLocation_def
        enumerate_eq_zip)

section \<open>Properties of base64\<close>

lemma b64val_b64char: "n < 64 \<Longrightarrow> b64val (b64char n) = Some n"
  by (auto simp: b64val_def b64char_def)

lemma b64char_valid: "b64val (b64char n) \<noteq> None"
  by (auto simp: b64val_def b64char_def)

lemma b64val_not_special:
  "b64val c \<noteq> None \<Longrightarrow> c \<noteq> 61 \<and> c \<noteq> 45 \<and> c \<noteq> 95 \<and> \<not> is_ascii_whitespace c"
  by (auto simp: b64val_def is_ascii_whitespace_def split: if_splits)

lemmas b64char_not_special = b64val_not_special [OF b64char_valid]

lemma sextets_lt: "\<forall>b\<in>set bs. b < 256 \<Longrightarrow> \<forall>s\<in>set (sextets bs). s < 64"
  by (induction bs rule: sextets.induct) auto

lemma bytes_of_sextets_sextets: "\<forall>b\<in>set bs. b < 256 \<Longrightarrow> bytes_of_sextets (sextets bs) = bs"
  by (induction bs rule: sextets.induct) auto

lemma base64_encode_shape:
  "base64_encode bs = map b64char (sextets bs) @ replicate (pad_count bs) 61"
  by (simp add: base64_encode_def pad_count_def)

lemma pad_count_step: "pad_count (a # b # c # bs) = pad_count bs"
proof -
  have "length (a # b # c # bs) = length bs + 3" by simp
  then show ?thesis unfolding pad_count_def by (simp only: mod_add_self2)
qed

lemma length_sextets_step: "length (sextets (a # b # c # bs)) = length (sextets bs) + 4"
  by simp

lemma pad_facts:
  "pad_count bs \<le> 2 \<and> (length (sextets bs) + pad_count bs) mod 4 = 0
   \<and> (pad_count bs = 0 \<longleftrightarrow> length (sextets bs) mod 4 = 0)
   \<and> length (sextets bs) mod 4 \<noteq> 1
   \<and> (length (sextets bs) mod 4 \<noteq> 0 \<longrightarrow> 4 - length (sextets bs) mod 4 = pad_count bs)"
proof (induction bs rule: sextets.induct)
  case 1
  show ?case by (simp add: pad_count_def)
next
  case (2 a)
  show ?case by (simp add: pad_count_def)
next
  case (3 a b)
  show ?case by (simp add: pad_count_def)
next
  case (4 a b c bs)
  have "(length (sextets bs) + 4) mod 4 = length (sextets bs) mod 4" by (simp only: mod_add_self2)
  moreover have "(length (sextets bs) + 4 + pad_count bs) mod 4 = (length (sextets bs) + pad_count bs) mod 4"
    by (metis add.assoc add.commute mod_add_self2)
  ultimately show ?case
    using 4 unfolding pad_count_step length_sextets_step by simp
qed

lemma pad_count_le: "pad_count bs \<le> 2"
  using pad_facts [of bs] by simp

lemma pad_total: "(length (sextets bs) + pad_count bs) mod 4 = 0"
  using pad_facts [of bs] by simp

lemma pad_zero: "pad_count bs = 0 \<longleftrightarrow> length (sextets bs) mod 4 = 0"
  using pad_facts [of bs] by simp

lemma pad_restore: "length (sextets bs) mod 4 \<noteq> 0 \<Longrightarrow> 4 - length (sextets bs) mod 4 = pad_count bs"
  using pad_facts [of bs] by simp

lemma sextets_not_1: "length (sextets bs) mod 4 \<noteq> 1"
  using pad_facts [of bs] by simp

lemma strip_padding_shape:
  assumes nopad: "61 \<notin> set xs" and p: "p \<le> 2" and len: "(length xs + p) mod 4 = 0"
  shows "strip_padding (xs @ replicate p 61) = xs"
proof -
  consider "p = 0" | "p = 1" | "p = 2" using p by linarith
  then show ?thesis
  proof cases
    case 1
    have "drop (length xs - 2) xs \<noteq> [61, 61]"
    proof
      assume "drop (length xs - 2) xs = [61, 61]"
      then have "61 \<in> set (drop (length xs - 2) xs)" by simp
      with nopad show False by (meson in_set_dropD)
    qed
    moreover have "drop (length xs - 1) xs \<noteq> [61]"
    proof
      assume "drop (length xs - 1) xs = [61]"
      then have "61 \<in> set (drop (length xs - 1) xs)" by simp
      with nopad show False by (meson in_set_dropD)
    qed
    ultimately show ?thesis using 1 by (simp add: strip_padding_def)
  next
    case 2
    with len have "xs \<noteq> []" by auto
    then obtain ys y where xs: "xs = ys @ [y]" by (meson rev_exhaust)
    with nopad have "y \<noteq> 61" by auto
    with 2 xs len show ?thesis by (simp add: strip_padding_def)
  next
    case 3
    have "replicate 2 61 = [61, 61::nat]" by (simp add: numeral_2_eq_2)
    with 3 len show ?thesis by (simp add: strip_padding_def)
  qed
qed

lemma those_map_b64val:
  "\<forall>s\<in>set ss. s < 64 \<Longrightarrow> those (map b64val (map b64char ss)) = Some ss"
  by (induction ss) (simp_all add: b64val_b64char)

lemma pad_not_ws: "\<not> is_ascii_whitespace 61"
  by (simp add: is_ascii_whitespace_def)

lemma filter_ws_b64: "filter (\<lambda>u. \<not> is_ascii_whitespace u) (base64_encode bs) = base64_encode bs"
  by (rule filter_True) (auto simp: base64_encode_shape b64char_not_special pad_not_ws)

lemma atob_base64_encode:
  assumes "\<forall>b\<in>set bs. b < 256"
  shows "atob (base64_encode bs) = Inr bs"
proof -
  have 1: "strip_padding (base64_encode bs) = map b64char (sextets bs)"
    unfolding base64_encode_shape
    by (rule strip_padding_shape) (auto simp: b64char_not_special pad_count_le pad_total)
  show ?thesis
    unfolding atob_def filter_ws_b64 1
    using sextets_not_1 [of bs] those_map_b64val [OF sextets_lt [OF assms]]
      bytes_of_sextets_sextets [OF assms]
    by (simp add: Let_def)
qed

lemma atob_btoa: "btoa s = Inr b \<Longrightarrow> atob b = Inr s"
  by (auto simp: btoa_def intro!: atob_base64_encode split: if_splits simp: not_less)

section \<open>URL-safe layer\<close>

lemma replace_all_single: "replace_all c [r] s = map (\<lambda>u. if u = c then r else u) s"
  by (induction s) (simp_all add: replace_all_def)

lemma replace_all_none: "replace_all c [] s = filter (\<lambda>u. u \<noteq> c) s"
  by (induction s) (simp_all add: replace_all_def)

lemma url_safe_shape:
  "url_safe (base64_encode bs) =
     map (\<lambda>u. if u = 47 then 95 else u) (map (\<lambda>u. if u = 43 then 45 else u) (map b64char (sextets bs)))"
proof -
  have "filter (\<lambda>u. u \<noteq> 61) (map (\<lambda>u. if u = 47 then 95 else u) (map (\<lambda>u. if u = 43 then 45 else u) (map b64char (sextets bs)))) =
     map (\<lambda>u. if u = 47 then 95 else u) (map (\<lambda>u. if u = 43 then 45 else u) (map b64char (sextets bs)))"
    by (rule filter_True) (auto simp: b64char_not_special)
  then show ?thesis
    by (simp add: url_safe_def base64_encode_shape replace_all_single replace_all_none)
qed

lemma unsafe_safe_char:
  assumes "b64val c \<noteq> None"
  shows "(if (if (if (if c = 43 then 45 else c) = 47 then 95 else (if c = 43 then 45 else c)) = 45 then 43
              else (if (if c = 43 then 45 else c) = 47 then 95 else (if c = 43 then 45 else c))) = 95
          then 47
          else (if (if (if c = 43 then 45 else c) = 47 then 95 else (if c = 43 then 45 else c)) = 45 then 43
                else (if (if c = 43 then 45 else c) = 47 then 95 else (if c = 43 then 45 else c)))) = (c::nat)"
  using b64val_not_special [OF assms] by simp

lemma url_unsafe_url_safe: "url_unsafe (url_safe (base64_encode bs)) = base64_encode bs"
proof -
  have restored: "replace_all 95 [47] (replace_all 45 [43] (url_safe (base64_encode bs))) = map b64char (sextets bs)"
    unfolding url_safe_shape replace_all_single map_map comp_def
    by (rule map_cong) (simp_all add: unsafe_safe_char [OF b64char_valid])
  show ?thesis
  proof (cases "length (sextets bs) mod 4 = 0")
    case True
    with pad_zero [of bs] have "pad_count bs = 0" by simp
    with True show ?thesis
      unfolding url_unsafe_def restored Let_def by (simp add: base64_encode_shape)
  next
    case False
    with pad_restore [of bs] pad_count_le [of bs]
    have "4 - length (sextets bs) mod 4 = pad_count bs" "4 - length (sextets bs) mod 4 \<noteq> 4"
      by simp_all
    then show ?thesis
      unfolding url_unsafe_def restored Let_def by (simp add: base64_encode_shape)
  qed
qed

text \<open>The pad length the decoder restores is \<open>(4 - len mod 4) mod 4\<close>.\<close>

lemma url_unsafe_padding:
  "url_unsafe t =
     replace_all 95 [47] (replace_all 45 [43] t)
     @ replicate ((4 - length (replace_all 95 [47] (replace_all 45 [43] t)) mod 4) mod 4) 61"
proof -
  define n where "n = length (replace_all 95 [47] (replace_all 45 [43] t))"
  have "(4 - n mod 4) mod 4 = (if 4 - n mod 4 \<noteq> 4 then 4 - n mod 4 else 0)"
  proof (cases "n mod 4 = 0")
    case True
    then show ?thesis by simp
  next
    case False
    then have "4 - n mod 4 < 4" by simp
    then show ?thesis by simp
  qed
  then show ?thesis by (simp add: url_unsafe_def Let_def n_def)
qed

section \<open>Digits\<close>

lemma digit_vals_digit_chars: "digit_vals (digit_chars ds) = ds"
  by (induction ds) (simp_all add: digit_vals_def digit_chars_def)

lemma is_digit_digit_char: "d < 10 \<Longrightarrow> is_digit (48 + d)"
  by (simp add: is_digit_def)

lemma takeWhile_digit_chars:
  assumes "list_all (\<lambda>d. d < 10) ds" and "\<not> next_is is_digit rest"
  shows "takeWhile is_digit (digit_chars ds @ rest) = digit_chars ds"
    and "dropWhile is_digit (digit_chars ds @ rest) = rest"
  using assms
  by (induction ds) (auto simp: digit_chars_def is_digit_def next_is_def split: list.splits)

lemma digits_of_nat_digits: "list_all (\<lambda>d. d < 10) (digits_of_nat n)"
  by (induction n rule: digits_of_nat.induct) (subst digits_of_nat.simps, simp)

lemma digits_of_nat_nonempty: "digits_of_nat n \<noteq> []"
  by (subst digits_of_nat.simps) simp

lemma nat_of_digits_snoc: "nat_of_digits (ds @ [d]) = 10 * nat_of_digits ds + d"
  by (simp add: nat_of_digits_def)

lemma nat_of_digits_of_nat: "nat_of_digits (digits_of_nat n) = n"
proof (induction n rule: digits_of_nat.induct)
  case (1 n)
  show ?case
  proof (cases "n < 10")
    case True
    then show ?thesis by (subst digits_of_nat.simps) (simp add: nat_of_digits_def)
  next
    case False
    with 1 show ?thesis
      by (subst digits_of_nat.simps) (simp add: nat_of_digits_snoc)
  qed
qed

section \<open>Readers\<close>

lemma read_digits1_digit_chars:
  assumes "list_all (\<lambda>d. d < 10) ds" and "ds \<noteq> []" and "\<not> next_is is_digit rest"
  shows "read_digits1 (digit_chars ds @ rest) = Some (ds, rest)"
  using assms takeWhile_digit_chars [OF assms(1,3)]
  by (cases ds) (simp_all add: read_digits1_def digit_vals_digit_chars, simp add: digit_chars_def)

lemma read_int_digit_chars:
  assumes "list_all (\<lambda>d. d < 10) ds" and "ds \<noteq> []" and "hd ds \<noteq> 0" and "\<not> next_is is_digit rest"
  shows "read_int (digit_chars ds @ rest) = Some (ds, rest)"
proof -
  from assms obtain d ds' where ds: "ds = d # ds'" and d: "d \<noteq> 0" "d < 10"
    by (cases ds) auto
  have "read_int (digit_chars ds @ rest) =
          Some (digit_vals (takeWhile is_digit (digit_chars ds @ rest)), dropWhile is_digit (digit_chars ds @ rest))"
    using d by (simp add: read_int_def ds digit_chars_def is_digit_def)
  then show ?thesis
    by (simp add: takeWhile_digit_chars [OF assms(1,4)] digit_vals_digit_chars)
qed

lemma read_int_zero: "read_int (48 # rest) = Some ([0], rest)"
  by (simp add: read_int_def)

lemma read_frac_none: "\<not> next_is (\<lambda>c. c = 46) rest \<Longrightarrow> read_frac rest = Some ([], rest)"
  by (auto simp: read_frac_def next_is_def split: list.splits)

lemma read_frac_digit_chars:
  assumes "list_all (\<lambda>d. d < 10) ds" and "ds \<noteq> []" and "\<not> next_is is_digit rest"
  shows "read_frac (46 # digit_chars ds @ rest) = Some (ds, rest)"
  by (simp add: read_frac_def read_digits1_digit_chars [OF assms])

lemma read_exp_none: "\<not> next_is (\<lambda>c. c = 101 \<or> c = 69) rest \<Longrightarrow> read_exp rest = Some (0, rest)"
  by (auto simp: read_exp_def next_is_def split: list.splits)

lemma read_exp_exponent_part:
  assumes "\<not> next_is is_digit rest"
  shows "read_exp (exponent_part e @ rest) = Some (e, rest)"
proof -
  have r: "read_digits1 (digit_chars (digits_of_nat m) @ rest) = Some (digits_of_nat m, rest)" for m
    by (rule read_digits1_digit_chars [OF digits_of_nat_digits digits_of_nat_nonempty assms])
  show ?thesis
    by (cases "0 \<le> e") (simp_all add: read_exp_def exponent_part_def r nat_of_digits_of_nat)
qed

section \<open>Numbers\<close>

lemma takeWhile_zeros: "c \<noteq> [] \<Longrightarrow> hd c \<noteq> 0 \<Longrightarrow>
    takeWhile (\<lambda>d. d = 0) (replicate a (0::nat) @ c @ t) = replicate a 0
  \<and> dropWhile (\<lambda>d. d = 0) (replicate a (0::nat) @ c @ t) = c @ t"
  by (induction a) (auto simp: neq_Nil_conv)

lemma make_number_core:
  assumes "c \<noteq> []" and "hd c \<noteq> 0" and "last c \<noteq> 0"
    and "ip @ fp = replicate a 0 @ c @ replicate b 0"
  shows "make_number neg ip fp e = Number neg c (int (length ip) - int a + e)"
proof -
  have rc: "rev c \<noteq> []" "hd (rev c) \<noteq> 0" using assms by (simp_all add: hd_rev)
  have core: "rev (dropWhile (\<lambda>d. d = 0) (rev (c @ replicate b 0))) = c"
    using takeWhile_zeros [OF rc, of b "[]"] by simp
  have tw: "takeWhile (\<lambda>d. d = 0) (ip @ fp) = replicate a 0"
    and dw: "dropWhile (\<lambda>d. d = 0) (ip @ fp) = c @ replicate b 0"
    unfolding assms(4) using takeWhile_zeros [OF assms(1,2), of a "replicate b 0"] by simp_all
  show ?thesis
    unfolding make_number_def Let_def tw dw core using assms(1) by simp
qed

lemma make_number_zero: "make_number neg [0] [] 0 = Number False [] 0"
  by (simp add: make_number_def)

lemma Number_toString_body:
  "Number_toString x =
     (if digits x = [] then [48]
      else (if negative x then [45] else []) @ number_body (digits x) (point x))"
  by (simp add: Number_toString_def number_body_def Let_def)

lemma parse_number_unsigned:
  "parse_number s = read_unsigned (case s of c # _ \<Rightarrow> c = 45 | [] \<Rightarrow> False)
      (if (case s of c # _ \<Rightarrow> c = 45 | [] \<Rightarrow> False) then tl s else s)"
  by (simp add: parse_number_def read_unsigned_def Let_def)

lemma delimitedD:
  assumes "delimited rest"
  shows "\<not> next_is is_digit rest" "\<not> next_is (\<lambda>c. c = 46) rest"
    "\<not> next_is (\<lambda>c. c = 101 \<or> c = 69) rest"
  using assms by (auto simp: delimited_def next_is_def is_digit_def split: list.splits)

lemma next_is_Cons: "next_is P (c # s) = P c"
  by (simp add: next_is_def)

lemma digit_chars_append: "digit_chars (xs @ ys) = digit_chars xs @ digit_chars ys"
  by (simp add: digit_chars_def)

lemma digit_chars_replicate: "digit_chars (replicate m 0) = replicate m 48"
  by (simp add: digit_chars_def)

lemma list_all_digits_take_drop:
  "list_all (\<lambda>d. d < 10) ds \<Longrightarrow> list_all (\<lambda>d. d < (10::nat)) (take m ds) \<and> list_all (\<lambda>d. d < 10) (drop m ds)"
  by (metis append_take_drop_id list_all_append)

lemma read_unsigned_body:
  assumes digs: "list_all (\<lambda>d. d < 10) ds" and ne: "ds \<noteq> []"
    and hd0: "hd ds \<noteq> 0" and last0: "last ds \<noteq> 0" and rest: "delimited rest"
  shows "read_unsigned neg (number_body ds n @ rest) = Some (Number neg ds n, rest)"
proof -
  note d = delimitedD [OF rest]
  let ?k = "int (length ds)"
  consider (A) "?k \<le> n" "n \<le> 21"
    | (B) "n < ?k" "0 < n" "n \<le> 21"
    | (C) "n < ?k" "- 6 < n" "n \<le> 0"
    | (D) "\<not> (?k \<le> n \<and> n \<le> 21)" "\<not> (0 < n \<and> n \<le> 21)" "\<not> (- 6 < n \<and> n \<le> 0)" "?k = 1"
    | (E) "\<not> (?k \<le> n \<and> n \<le> 21)" "\<not> (0 < n \<and> n \<le> 21)" "\<not> (- 6 < n \<and> n \<le> 0)" "?k \<noteq> 1"
    using ne by (cases "?k \<le> n \<and> n \<le> 21"; cases "0 < n \<and> n \<le> 21"; cases "- 6 < n \<and> n \<le> 0"; cases "?k = 1") auto
  then show ?thesis
  proof cases
    case A
    let ?ip = "ds @ replicate (nat (n - ?k)) 0"
    have body: "number_body ds n = digit_chars ?ip"
      using A by (simp add: number_body_def digit_chars_append digit_chars_replicate)
    have ip: "list_all (\<lambda>d. d < 10) ?ip" "?ip \<noteq> []" "hd ?ip \<noteq> 0"
      using digs ne hd0 by (auto simp: list_all_iff)
    have "make_number neg ?ip [] 0 = Number neg ds (int (length ?ip) - int 0 + 0)"
      by (rule make_number_core [OF ne hd0 last0]) simp
    then have mk: "make_number neg ?ip [] 0 = Number neg ds n" using A by simp
    show ?thesis
      unfolding body read_unsigned_def
      by (simp add: read_int_digit_chars [OF ip d(1)] read_frac_none [OF d(2)] read_exp_none [OF d(3)] mk)
  next
    case B
    let ?ip = "take (nat n) ds" and ?fp = "drop (nat n) ds"
    have body: "number_body ds n = digit_chars ?ip @ 46 # digit_chars ?fp"
      using B by (simp add: number_body_def)
    have ip: "list_all (\<lambda>d. d < 10) ?ip" "?ip \<noteq> []" "hd ?ip \<noteq> 0"
      using list_all_digits_take_drop [OF digs] ne hd0 B by auto
    have fp: "list_all (\<lambda>d. d < 10) ?fp" "?fp \<noteq> []"
      using list_all_digits_take_drop [OF digs] B by auto
    have nd: "\<not> next_is is_digit (46 # digit_chars ?fp @ rest)"
      by (simp add: next_is_Cons is_digit_def)
    have "make_number neg ?ip ?fp 0 = Number neg ds (int (length ?ip) - int 0 + 0)"
      by (rule make_number_core [OF ne hd0 last0]) simp
    then have mk: "make_number neg ?ip ?fp 0 = Number neg ds n" using B by (simp add: min_def)
    have ri: "read_int (digit_chars ?ip @ 46 # digit_chars ?fp @ rest) = Some (?ip, 46 # digit_chars ?fp @ rest)"
      by (rule read_int_digit_chars [OF ip nd])
    show ?thesis
      unfolding body read_unsigned_def
      by (simp add: ri read_frac_digit_chars [OF fp d(1)] read_exp_none [OF d(3)] mk)
  next
    case C
    let ?fp = "replicate (nat (- n)) 0 @ ds"
    have body: "number_body ds n = 48 # 46 # digit_chars ?fp"
      using C by (simp add: number_body_def digit_chars_append digit_chars_replicate)
    have fp: "list_all (\<lambda>d. d < 10) ?fp" "?fp \<noteq> []"
      using digs ne by (auto simp: list_all_iff)
    have "make_number neg [0] ?fp 0 = Number neg ds (int (length [0::nat]) - int (Suc (nat (- n))) + 0)"
      by (rule make_number_core [OF ne hd0 last0]) (simp add: replicate_app_Cons_same)
    then have mk: "make_number neg [0] ?fp 0 = Number neg ds n" using C by simp
    show ?thesis
      unfolding body read_unsigned_def
      by (simp add: read_int_zero read_frac_digit_chars [OF fp d(1)] read_exp_none [OF d(3)] mk)
  next
    case D
    have body: "number_body ds n = digit_chars ds @ exponent_part (n - 1)"
      unfolding number_body_def Let_def by (simp only: D(1,2,3) if_False) (simp add: D(4))
    have nd: "\<not> next_is is_digit (exponent_part (n - 1) @ rest)"
      by (simp add: exponent_part_def next_is_Cons is_digit_def)
    have nf: "\<not> next_is (\<lambda>c. c = 46) (exponent_part (n - 1) @ rest)"
      by (simp add: exponent_part_def next_is_Cons)
    have "make_number neg ds [] (n - 1) = Number neg ds (int (length ds) - int 0 + (n - 1))"
      by (rule make_number_core [OF ne hd0 last0]) simp
    then have mk: "make_number neg ds [] (n - 1) = Number neg ds n" using D by simp
    have ri: "read_int (digit_chars ds @ exponent_part (n - 1) @ rest) = Some (ds, exponent_part (n - 1) @ rest)"
      by (rule read_int_digit_chars [OF digs ne hd0 nd])
    show ?thesis
      unfolding body read_unsigned_def
      by (simp add: ri read_frac_none [OF nf] read_exp_exponent_part [OF d(1)] mk)
  next
    case E
    let ?ip = "[hd ds]" and ?fp = "tl ds"
    have k2: "2 \<le> length ds" using E(4) ne by (cases ds; cases "tl ds") auto
    have td: "take 1 ds = ?ip" "drop 1 ds = ?fp" using ne by (cases ds; simp)+
    have body: "number_body ds n = digit_chars ?ip @ 46 # digit_chars ?fp @ exponent_part (n - 1)"
      unfolding number_body_def Let_def td using E(4) by (simp only: E(1,2,3) if_False) simp
    have ip: "list_all (\<lambda>d. d < 10) ?ip" "?ip \<noteq> []" "hd ?ip \<noteq> 0"
      using digs ne hd0 by (cases ds; simp)+
    have fp: "list_all (\<lambda>d. d < 10) ?fp" "?fp \<noteq> []"
      using digs k2 by (cases ds; cases "tl ds"; simp)+
    have nd: "\<not> next_is is_digit (46 # digit_chars ?fp @ exponent_part (n - 1) @ rest)"
      by (simp add: next_is_Cons is_digit_def)
    have nd2: "\<not> next_is is_digit (exponent_part (n - 1) @ rest)"
      by (simp add: exponent_part_def next_is_Cons is_digit_def)
    have "make_number neg ?ip ?fp (n - 1) = Number neg ds (int (length ?ip) - int 0 + (n - 1))"
      by (rule make_number_core [OF ne hd0 last0]) (use ne in simp)
    then have mk: "make_number neg ?ip ?fp (n - 1) = Number neg ds n" by simp
    have ri: "read_int (digit_chars ?ip @ 46 # digit_chars ?fp @ exponent_part (n - 1) @ rest)
        = Some (?ip, 46 # digit_chars ?fp @ exponent_part (n - 1) @ rest)"
      by (rule read_int_digit_chars [OF ip nd])
    have rf: "read_frac (46 # digit_chars ?fp @ exponent_part (n - 1) @ rest) = Some (?fp, exponent_part (n - 1) @ rest)"
      by (rule read_frac_digit_chars [OF fp nd2])
    show ?thesis
      unfolding body read_unsigned_def append_assoc append_Cons
      by (simp only: ri rf read_exp_exponent_part [OF d(1)] mk option.case prod.case)
  qed
qed

lemma number_body_starts_digit:
  assumes "list_all (\<lambda>d. d < 10) ds" and "ds \<noteq> []"
  shows "\<exists>c t. number_body ds n = c # t \<and> is_digit c"
proof -
  from assms obtain d ds' where "ds = d # ds'" "d < 10" by (cases ds) auto
  then show ?thesis
    by (cases "nat n") (auto simp: number_body_def Let_def digit_chars_def is_digit_def)
qed

lemma parse_number_toString:
  assumes "wf_number x" and "delimited rest"
  shows "parse_number (Number_toString x @ rest) = Some (x, rest)"
proof (cases "digits x = []")
  case True
  with assms(1) have x: "x = Number False [] 0"
    by (cases x) (simp add: wf_number_def)
  note d = delimitedD [OF assms(2)]
  show ?thesis
    by (simp add: x Number_toString_body parse_number_unsigned read_unsigned_def read_int_zero
        read_frac_none [OF d(2)] read_exp_none [OF d(3)] make_number_zero)
next
  case False
  with assms(1) have wf: "list_all (\<lambda>d. d < 10) (digits x)" "hd (digits x) \<noteq> 0" "last (digits x) \<noteq> 0"
    by (simp_all add: wf_number_def)
  obtain c t where ct: "number_body (digits x) (point x) = c # t" "is_digit c"
    using number_body_starts_digit [OF wf(1) False] by blast
  have ru: "read_unsigned neg (number_body (digits x) (point x) @ rest) = Some (Number neg (digits x) (point x), rest)" for neg
    by (rule read_unsigned_body [OF wf(1) False wf(2,3) assms(2)])
  show ?thesis
  proof (cases "negative x")
    case True
    then have x: "x = Number True (digits x) (point x)" by (cases x) simp
    show ?thesis
      using ru [of True] x True False
      by (simp add: Number_toString_body parse_number_unsigned)
  next
    case neg: False
    then have x: "x = Number False (digits x) (point x)" by (cases x) simp
    have "c \<noteq> 45" using ct(2) by (auto simp: is_digit_def)
    then show ?thesis
      using ru [of False] x neg False ct(1)
      by (simp add: Number_toString_body parse_number_unsigned)
  qed
qed

section \<open>Properties of string literals\<close>

lemma hex_val_hex_char: "d < 16 \<Longrightarrow> hex_val (hex_char d) = Some d"
  by (auto simp: hex_val_def hex_char_def)

lemma split16: "(u::nat) = u div 16 * 16 + u mod 16"
  by simp

lemma hex_digits_value:
  assumes "u < 65536"
  shows "u div 4096 mod 16 * 4096 + u div 256 mod 16 * 256 + u div 16 mod 16 * 16 + u mod 16 = (u::nat)"
proof -
  define a where "a = u div 16"
  define b where "b = a div 16"
  define c where "c = b div 16"
  have u: "u = a * 16 + u mod 16" unfolding a_def by simp
  have a: "a = b * 16 + a mod 16" unfolding b_def by simp
  have b: "b = c * 16 + b mod 16" unfolding c_def by simp
  have c16: "c < 16" unfolding c_def b_def a_def using assms by (simp add: div_mult2_eq [symmetric])
  have d256: "u div 256 = b" unfolding b_def a_def by (simp add: div_mult2_eq [symmetric])
  have d4096: "u div 4096 = c" unfolding c_def b_def a_def by (simp add: div_mult2_eq [symmetric])
  have e: "u div 4096 mod 16 = c" using c16 d4096 by simp
  have "c * 4096 + b mod 16 * 256 + a mod 16 * 16 + u mod 16 = u"
    using u a b by linarith
  then show ?thesis
    unfolding e d256 unfolding a_def .
qed

lemma hex4_unicode_escape:
  assumes "u < 65536"
  shows "hex4 (hex_char (u div 4096 mod 16)) (hex_char (u div 256 mod 16))
           (hex_char (u div 16 mod 16)) (hex_char (u mod 16)) = Some u"
  by (simp add: hex4_def hex_val_hex_char hex_digits_value [OF assms])

lemma parse_unicode_escape:
  assumes "u < 65536"
  shows "parse_string_body (unicode_escape u @ t) = cons_result u (parse_string_body t)"
  by (simp add: unicode_escape_def hex4_unicode_escape [OF assms])

lemma parse_quote_unit:
  "parse_string_body (quote_unit u @ t) = cons_result u (parse_string_body t)"
proof -
  consider (short) "u \<in> {8, 9, 10, 12, 13, 34, 92}"
    | (esc) "u \<notin> {8, 9, 10, 12, 13, 34, 92}" "u < 32 \<or> is_high_surrogate u \<or> is_low_surrogate u"
    | (lit) "u \<notin> {8, 9, 10, 12, 13, 34, 92}" "\<not> (u < 32 \<or> is_high_surrogate u \<or> is_low_surrogate u)"
    by blast
  then show ?thesis
  proof cases
    case short
    then show ?thesis by (auto simp: quote_unit_def unescape_def)
  next
    case esc
    then have "u < 65536" by (auto simp: is_high_surrogate_def is_low_surrogate_def)
    from parse_unicode_escape [OF this] esc show ?thesis
      by (simp add: quote_unit_def)
  next
    case lit
    then show ?thesis by (simp add: quote_unit_def)
  qed
qed

lemma parse_surrogate_pair:
  assumes "is_high_surrogate u" and "is_low_surrogate l"
  shows "parse_string_body (u # l # t) = cons_result u (cons_result l (parse_string_body t))"
  using assms by (simp add: is_high_surrogate_def is_low_surrogate_def)

lemma parse_quote_units:
  "parse_string_body (quote_units s @ 34 # rest) = Some (s, rest)"
proof (induction s rule: quote_units.induct)
  case 1
  show ?case by simp
next
  case (2 u)
  show ?case by (simp add: parse_quote_unit cons_result_def)
next
  case (3 u l us)
  show ?case
  proof (cases "is_high_surrogate u \<and> is_low_surrogate l")
    case True
    then have q: "quote_units (u # l # us) = u # l # quote_units us"
      by simp
    from True 3(1) show ?thesis
      unfolding q by (simp add: parse_surrogate_pair cons_result_def del: parse_string_body.simps quote_units.simps)
  next
    case False
    have q: "quote_units (u # l # us) = quote_unit u @ quote_units (l # us)"
      by (simp only: quote_units.simps if_not_P [OF False])
    from False 3(2) show ?thesis
      unfolding q by (simp add: parse_quote_unit cons_result_def del: parse_string_body.simps quote_units.simps)
  qed
qed

lemma parse_QuoteJSONString:
  "QuoteJSONString s @ rest = 34 # quote_units s @ 34 # rest"
  by (simp add: QuoteJSONString_def)

section \<open>Lists of optional texts\<close>

lemma those_Some_iff:
  "those (map f xs) = Some ys \<longleftrightarrow> list_all2 (\<lambda>x y. f x = Some y) xs ys"
proof (induction xs arbitrary: ys)
  case Nil
  show ?case by auto
next
  case (Cons x xs)
  show ?case
    by (cases ys) (auto simp: Cons.IH split: option.splits)
qed

lemma skip_ws_start: "\<not> is_json_ws c \<Longrightarrow> skip_ws (c # s) = c # s"
  by (simp add: skip_ws_def)

lemma value_start_not_ws: "value_start c \<Longrightarrow> \<not> is_json_ws c \<and> c \<noteq> 93 \<and> c \<noteq> 125"
  by (auto simp: value_start_def is_json_ws_def is_digit_def)

lemma delimited_simps: "delimited (44 # s)" "delimited (93 # s)" "delimited (125 # s)" "delimited []"
  by (simp_all add: delimited_def next_is_def)

lemma not_ws_simps: "\<not> is_json_ws 44" "\<not> is_json_ws 93" "\<not> is_json_ws 125" "\<not> is_json_ws 58"
  "\<not> is_json_ws 34" "\<not> is_json_ws 91" "\<not> is_json_ws 123"
  by (simp_all add: is_json_ws_def)

section \<open>Elements and members\<close>

lemma parse_elements_join:
  assumes "list_all2 (\<lambda>v t. \<forall>rest. delimited rest \<longrightarrow> p (t @ rest) = Some (v, rest)) vs ts"
    and "vs \<noteq> []" and "length vs \<le> k"
  shows "parse_elements p k (join_comma ts @ 93 # rest) acc = Some (acc @ vs, rest)"
  using assms
proof (induction vs ts arbitrary: k acc rule: list_all2_induct)
  case Nil
  then show ?case by simp
next
  case (Cons v vs t ts)
  from Cons.prems obtain k' where k: "k = Suc k'" "length vs \<le> k'" by (cases k) auto
  show ?case
  proof (cases vs)
    case Nil
    with Cons.hyps have ts: "ts = []" by simp
    have "p (t @ 93 # rest) = Some (v, 93 # rest)"
      using Cons.hyps(1) delimited_simps(2) by blast
    then show ?thesis
      by (simp add: k ts Nil skip_ws_start not_ws_simps)
  next
    case (Cons v' vs')
    with Cons.hyps(2) obtain t' ts' where ts: "ts = t' # ts'" by (cases ts) auto
    have 1: "p (t @ 44 # join_comma ts @ 93 # rest) = Some (v, 44 # join_comma ts @ 93 # rest)"
      using Cons.hyps(1) delimited_simps(1) by blast
    have 2: "parse_elements p k' (join_comma ts @ 93 # rest) (acc @ [v]) = Some ((acc @ [v]) @ vs, rest)"
      by (rule Cons.IH) (use Cons k in simp_all)
    show ?thesis
      using 1 2 by (simp add: k ts skip_ws_start not_ws_simps)
  qed
qed

lemma set_property_new: "k \<notin> fst ` set acc \<Longrightarrow> set_property k v acc = acc @ [(k, v)]"
  by (induction acc) auto

lemma parse_members_join:
  assumes "list_all2 (\<lambda>kv t. \<forall>rest. delimited rest \<longrightarrow> p (t @ rest) = Some (snd kv, rest)) kvs ts"
    and "kvs \<noteq> []" and "length kvs \<le> k" and "distinct (map fst acc @ map fst kvs)"
  shows "parse_members p k
           (join_comma (map (\<lambda>(kv, t). QuoteJSONString (fst kv) @ [58] @ t) (zip kvs ts)) @ 125 # rest) acc
         = Some (acc @ kvs, rest)"
  using assms
proof (induction kvs ts arbitrary: k acc rule: list_all2_induct)
  case Nil
  then show ?case by simp
next
  case (Cons kv kvs t ts)
  from Cons.prems obtain k' where k: "k = Suc k'" "length kvs \<le> k'" by (cases k) auto
  obtain key v where kv: "kv = (key, v)" by (cases kv)
  have new: "set_property key v acc = acc @ [(key, v)]"
    by (rule set_property_new) (use Cons.prems(3) kv in auto)
  have key: "parse_string_body (quote_units key @ 34 # s) = Some (key, s)" for s
    by (rule parse_quote_units)
  show ?case
  proof (cases kvs)
    case Nil
    with Cons.hyps have ts: "ts = []" by simp
    have "p (t @ 125 # rest) = Some (v, 125 # rest)"
      using Cons.hyps(1) delimited_simps(3) kv by auto
    then show ?thesis
      by (simp add: k ts Nil kv QuoteJSONString_def skip_ws_start not_ws_simps key new)
  next
    case (Cons kv' kvs')
    with Cons.hyps(2) obtain t' ts' where ts: "ts = t' # ts'" by (cases ts) auto
    let ?tail = "join_comma (map (\<lambda>(kv, t). QuoteJSONString (fst kv) @ [58] @ t) (zip kvs ts)) @ 125 # rest"
    have 1: "p (t @ 44 # ?tail) = Some (v, 44 # ?tail)"
      using Cons.hyps(1) delimited_simps(1) kv by auto
    have 2: "parse_members p k' ?tail (acc @ [(key, v)]) = Some ((acc @ [(key, v)]) @ kvs, rest)"
      by (rule Cons.IH) (use Cons k Cons.prems(3) kv in auto)
    show ?thesis
      using 1 2 by (simp add: k ts Cons kv QuoteJSONString_def skip_ws_start not_ws_simps key new)
  qed
qed

lemma those_member_text:
  "those (map member_text (map (map_prod id f) kvs)) = Some parts \<Longrightarrow>
     \<exists>ts. list_all2 (\<lambda>kv t. f (snd kv) = Some t) kvs ts
        \<and> parts = map (\<lambda>(kv, t). QuoteJSONString (fst kv) @ [58] @ t) (zip kvs ts)"
proof (induction kvs arbitrary: parts)
  case Nil
  then show ?case by simp
next
  case (Cons kv kvs)
  have split: "those (map member_text (map (map_prod id f) (kv # kvs))) =
      (case member_text (fst kv, f (snd kv)) of
         None \<Rightarrow> None
       | Some x \<Rightarrow> map_option ((#) x) (those (map member_text (map (map_prod id f) kvs))))"
    by (cases kv) (simp del: map_map)
  from Cons.prems obtain t ps where t: "f (snd kv) = Some t"
    and ps: "those (map member_text (map (map_prod id f) kvs)) = Some ps"
    and parts: "parts = (QuoteJSONString (fst kv) @ [58] @ t) # ps"
    unfolding split by (cases "f (snd kv)") (auto simp: member_text_def)
  from Cons.IH [OF ps] obtain ts where
    "list_all2 (\<lambda>kv t. f (snd kv) = Some t) kvs ts"
    "ps = map (\<lambda>(kv, t). QuoteJSONString (fst kv) @ [58] @ t) (zip kvs ts)" by blast
  then show ?case
    using t parts by (intro exI [of _ "t # ts"]) simp
qed

section \<open>The first character of a value's text\<close>

lemma Number_toString_start:
  assumes "wf_number x"
  shows "\<exists>c t. Number_toString x = c # t \<and> value_start c"
proof (cases "digits x = []")
  case True
  then show ?thesis by (simp add: Number_toString_body value_start_def is_digit_def)
next
  case False
  with assms have "list_all (\<lambda>d. d < 10) (digits x)" by (simp add: wf_number_def)
  from number_body_starts_digit [OF this False, of "point x"]
  show ?thesis using False by (auto simp: Number_toString_body value_start_def)
qed

lemma text_start:
  assumes "wf_json v" and "SerializeJSONProperty v = Some t"
  shows "\<exists>c t'. t = c # t' \<and> value_start c"
proof (cases v)
  case (JNum x)
  with assms Number_toString_start [of x] show ?thesis by auto
qed (use assms in \<open>auto simp: value_start_def js_def QuoteJSONString_def\<close>)

lemma length_join_comma: "sum_list (map length ts) \<le> length (join_comma ts)"
  by (induction ts rule: join_comma.induct) auto

lemma nonempty_texts_count:
  "\<forall>t\<in>set ts. t \<noteq> [] \<Longrightarrow> length ts \<le> sum_list (map length ts)"
proof (induction ts)
  case Nil
  show ?case by simp
next
  case (Cons t ts)
  then have "1 \<le> length t" by (cases t) auto
  with Cons show ?case by simp
qed

section \<open>The fuel that a text provides\<close>

lemma sum_list_le_pointwise:
  "list_all2 (\<lambda>x y. f x \<le> (g y :: nat)) xs ys \<Longrightarrow> sum_list (map f xs) \<le> sum_list (map g ys)"
  by (induction rule: list_all2_induct) auto

lemma number_body_nonempty: "ds \<noteq> [] \<Longrightarrow> number_body ds n \<noteq> []"
  by (auto simp: number_body_def Let_def digit_chars_def)

lemma Number_toString_nonempty: "Number_toString x \<noteq> []"
  by (simp add: Number_toString_body number_body_nonempty)

lemma json_measure_less_length:
  "SerializeJSONProperty v = Some t \<Longrightarrow> json_measure v < length t"
proof (induction v arbitrary: t)
  case (JArr vs)
  from JArr.prems obtain ts where ts: "those (map SerializeJSONProperty vs) = Some ts"
    and t: "t = [91] @ join_comma ts @ [93]" by auto
  from ts have "list_all2 (\<lambda>v t. SerializeJSONProperty v = Some t) vs ts"
    by (simp add: those_Some_iff)
  then have "list_all2 (\<lambda>v t. json_measure v \<le> length t) vs ts"
    by (rule list.rel_mono_strong) (use JArr.IH in \<open>auto simp: less_imp_le\<close>)
  then have "sum_list (map json_measure vs) \<le> sum_list (map length ts)"
    by (rule sum_list_le_pointwise)
  with length_join_comma [of ts] show ?case by (simp add: t)
next
  case (JObj kvs)
  from JObj.prems obtain parts where
    parts: "those (map member_text (map (map_prod id SerializeJSONProperty) kvs)) = Some parts"
    and t: "t = [123] @ join_comma parts @ [125]" by auto
  from those_member_text [OF parts] obtain ts where
    ts: "list_all2 (\<lambda>kv t. SerializeJSONProperty (snd kv) = Some t) kvs ts"
    and p: "parts = map (\<lambda>(kv, t). QuoteJSONString (fst kv) @ [58] @ t) (zip kvs ts)" by blast
  have len: "length kvs = length ts" using ts by (rule list_all2_lengthD)
  from ts have "list_all2 (\<lambda>kv t. json_measure (snd kv) \<le> length t) kvs ts"
    by (rule list.rel_mono_strong) (use JObj.IH in \<open>auto simp: less_imp_le snds.simps\<close>)
  then have 1: "sum_list (map (\<lambda>kv. json_measure (snd kv)) kvs) \<le> sum_list (map length ts)"
    by (rule sum_list_le_pointwise)
  have 2: "sum_list (map length ts) \<le> sum_list (map length parts)"
    unfolding p using len
  proof (induction kvs ts rule: list_induct2)
    case Nil
    show ?case by simp
  next
    case (Cons kv kvs t ts)
    then show ?case by simp
  qed
  from 1 2 length_join_comma [of parts] show ?case
    by (simp add: t comp_def)
qed (simp_all add: js_def QuoteJSONString_def Number_toString_nonempty length_greater_0_conv)

section \<open>JSON.parse inverts JSON.stringify\<close>

lemma parse_literal_self: "parse_literal lit v (lit @ rest) = Some (v, rest)"
  by (simp add: parse_literal_def)

lemma wf_json_elements: "wf_json (JArr vs) \<Longrightarrow> v \<in> set vs \<Longrightarrow> wf_json v"
  by (auto simp: list_all_iff)

lemma wf_json_members: "wf_json (JObj kvs) \<Longrightarrow> kv \<in> set kvs \<Longrightarrow> wf_json (snd kv)"
  by (auto simp: list_all_iff)

lemma member_le_sum: "x \<in> set xs \<Longrightarrow> f x \<le> sum_list (map f xs)" for f :: "'a \<Rightarrow> nat"
  by (induction xs) auto

lemma list_all2_right_member:
  "list_all2 R xs ys \<Longrightarrow> y \<in> set ys \<Longrightarrow> \<exists>x\<in>set xs. R x y"
  by (induction rule: list_all2_induct) auto

lemma parse_value_text:
  assumes "wf_json v" and "SerializeJSONProperty v = Some t" and "json_measure v < n"
    and "delimited rest"
  shows "parse_value n (t @ rest) = Some (v, rest)"
  using assms
proof (induction v arbitrary: n t rest)
  case JNull
  then obtain m where n: "n = Suc m" by (cases n) auto
  have "t = js ''null''" using JNull.prems by simp
  then have "parse_value_with p (t @ rest) = Some (JNull, rest)" for p
    using parse_literal_self [of "js ''null''" JNull rest]
    by (simp add: parse_value_with_def js_def skip_ws_def is_json_ws_def)
  then show ?case by (simp add: n)
next
  case (JBool b)
  then obtain m where n: "n = Suc m" by (cases n) auto
  have "parse_value_with p (t @ rest) = Some (JBool b, rest)" for p
  proof (cases b)
    case True
    then have "t = js ''true''" using JBool.prems by simp
    then show ?thesis
      using parse_literal_self [of "js ''true''" "JBool True" rest] True
      by (simp add: parse_value_with_def js_def skip_ws_def is_json_ws_def)
  next
    case False
    then have "t = js ''false''" using JBool.prems by simp
    then show ?thesis
      using parse_literal_self [of "js ''false''" "JBool False" rest] False
      by (simp add: parse_value_with_def js_def skip_ws_def is_json_ws_def)
  qed
  then show ?case by (simp add: n)
next
  case (JNum x)
  then obtain m where n: "n = Suc m" by (cases n) auto
  from JNum.prems have wf: "wf_number x" and t: "t = Number_toString x" by auto
  from Number_toString_start [OF wf] obtain c t' where ct: "Number_toString x = c # t'" "value_start c"
    by blast
  from number_body_starts_digit have dig: "c = 45 \<or> is_digit c"
  proof -
    show ?thesis
    proof (cases "digits x = []")
      case True
      with ct show ?thesis by (simp add: Number_toString_body is_digit_def)
    next
      case False
      with wf have "list_all (\<lambda>d. d < 10) (digits x)" by (simp add: wf_number_def)
      from number_body_starts_digit [OF this False, of "point x"] ct False
      show ?thesis by (auto simp: Number_toString_body split: if_splits)
    qed
  qed
  have pn: "parse_number (c # t' @ rest) = Some (x, rest)"
    using parse_number_toString [OF wf JNum.prems(4)] ct(1) by simp
  have "parse_value_with p (t @ rest) = Some (JNum x, rest)" for p
    using dig pn value_start_not_ws [OF ct(2)]
    by (auto simp: parse_value_with_def t ct(1) skip_ws_start is_digit_def)
  then show ?case by (simp add: n)
next
  case (JStr s)
  then obtain m where n: "n = Suc m" by (cases n) auto
  have t: "t = 34 # quote_units s @ [34]" using JStr.prems by (simp add: QuoteJSONString_def)
  have "parse_value_with p (t @ rest) = Some (JStr s, rest)" for p
    by (simp add: parse_value_with_def t skip_ws_start not_ws_simps parse_quote_units)
  then show ?case by (simp add: n)
next
  case (JArr vs)
  then obtain m where n: "n = Suc m" and m: "sum_list (map json_measure vs) < m" by (cases n) auto
  from JArr.prems obtain ts where ts: "those (map SerializeJSONProperty vs) = Some ts"
    and t: "t = 91 # join_comma ts @ [93]" by auto
  from ts have rel: "list_all2 (\<lambda>v t. SerializeJSONProperty v = Some t) vs ts"
    by (simp add: those_Some_iff)
  show ?case
  proof (cases vs)
    case Nil
    with rel have "ts = []" by simp
    then show ?thesis
      by (simp add: n t Nil parse_value_with_def skip_ws_start not_ws_simps)
  next
    case (Cons v0 vs0)
    have elem: "list_all2 (\<lambda>v t. \<forall>rest. delimited rest \<longrightarrow> parse_value m (t @ rest) = Some (v, rest)) vs ts"
      using rel
    proof (rule list.rel_mono_strong)
      fix v t
      assume v: "v \<in> set vs" and vt: "SerializeJSONProperty v = Some t"
      have "json_measure v < m" using member_le_sum [OF v, of json_measure] m by simp
      with JArr.IH [OF v wf_json_elements [OF JArr.prems(1) v] vt]
      show "\<forall>rest. delimited rest \<longrightarrow> parse_value m (t @ rest) = Some (v, rest)" by blast
    qed
    from rel Cons obtain t0 ts0 where ts0: "ts = t0 # ts0" and vt0: "SerializeJSONProperty v0 = Some t0"
      by (cases ts) auto
    from text_start [OF wf_json_elements [OF JArr.prems(1)] vt0] Cons
    obtain c t0' where c: "t0 = c # t0'" "value_start c" by auto
    obtain body where body: "join_comma ts = c # body"
      using ts0 c(1) by (cases ts0) auto
    have count: "length vs \<le> length (join_comma ts @ 93 # rest)"
    proof -
      have "\<forall>t\<in>set ts. t \<noteq> []"
      proof
        fix t assume "t \<in> set ts"
        with list_all2_right_member [OF rel] obtain v where "v \<in> set vs" "SerializeJSONProperty v = Some t"
          by blast
        with text_start [OF wf_json_elements [OF JArr.prems(1)]] show "t \<noteq> []" by blast
      qed
      from nonempty_texts_count [OF this] length_join_comma [of ts] list_all2_lengthD [OF rel]
      show ?thesis by simp
    qed
    have pe: "parse_elements (parse_value m) (length (join_comma ts @ 93 # rest)) (join_comma ts @ 93 # rest) []
        = Some ([] @ vs, rest)"
      by (rule parse_elements_join [OF elem _ count]) (simp add: Cons)
    have "parse_value_with (parse_value m) (91 # (join_comma ts @ 93 # rest)) = Some (JArr vs, rest)"
      using pe value_start_not_ws [OF c(2)]
      by (simp add: parse_value_with_def skip_ws_start not_ws_simps body)
    then show ?thesis by (simp add: n t)
  qed
next
  case (JObj kvs)
  then obtain m where n: "n = Suc m" and m: "sum_list (map (\<lambda>kv. json_measure (snd kv)) kvs) < m"
    by (cases n) (auto simp: comp_def)
  from JObj.prems obtain parts where
    parts: "those (map member_text (map (map_prod id SerializeJSONProperty) kvs)) = Some parts"
    and t: "t = 123 # join_comma parts @ [125]" by auto
  from those_member_text [OF parts] obtain ts where
    rel: "list_all2 (\<lambda>kv t. SerializeJSONProperty (snd kv) = Some t) kvs ts"
    and p: "parts = map (\<lambda>(kv, t). QuoteJSONString (fst kv) @ [58] @ t) (zip kvs ts)" by blast
  show ?case
  proof (cases kvs)
    case Nil
    with rel p have "parts = []" by simp
    then show ?thesis
      by (simp add: n t Nil parse_value_with_def skip_ws_start not_ws_simps)
  next
    case (Cons kv0 kvs0)
    have elem: "list_all2 (\<lambda>kv t. \<forall>rest. delimited rest \<longrightarrow> parse_value m (t @ rest) = Some (snd kv, rest)) kvs ts"
      using rel
    proof (rule list.rel_mono_strong)
      fix kv t
      assume kv: "kv \<in> set kvs" and vt: "SerializeJSONProperty (snd kv) = Some t"
      have "json_measure (snd kv) < m"
        using member_le_sum [OF kv, of "\<lambda>kv. json_measure (snd kv)"] m by simp
      moreover have "snd kv \<in> Basic_BNFs.snds kv" by (cases kv) (simp add: snds.simps)
      ultimately show "\<forall>rest. delimited rest \<longrightarrow> parse_value m (t @ rest) = Some (snd kv, rest)"
        using JObj.IH [OF kv _ wf_json_members [OF JObj.prems(1) kv] vt] by blast
    qed
    from rel Cons obtain t0 ts0 where ts0: "ts = t0 # ts0" by (cases ts) auto
    obtain body where body: "join_comma parts = 34 # body"
      using ts0 Cons p by (cases kvs0; cases ts0) (auto simp: QuoteJSONString_def)
    have count: "length kvs \<le> length (join_comma parts @ 125 # rest)"
    proof -
      have "\<forall>t\<in>set parts. t \<noteq> []"
        unfolding p by (auto simp: QuoteJSONString_def)
      from nonempty_texts_count [OF this] length_join_comma [of parts] list_all2_lengthD [OF rel]
      show ?thesis by (simp add: p)
    qed
    have dist: "distinct (map fst [] @ map fst kvs)"
      using JObj.prems(1) by simp
    have pm: "parse_members (parse_value m) (length (join_comma parts @ 125 # rest)) (join_comma parts @ 125 # rest) []
        = Some ([] @ kvs, rest)"
      unfolding p by (rule parse_members_join [OF elem _ _ dist]) (use Cons count p in simp_all)
    have "parse_value_with (parse_value m) (123 # (join_comma parts @ 125 # rest)) = Some (JObj kvs, rest)"
      using pm by (simp add: parse_value_with_def skip_ws_start not_ws_simps body)
    then show ?thesis by (simp add: n t)
  qed
next
  case JNonFinite
  then show ?case by simp
next
  case JBackRef
  then show ?case by simp
qed

theorem JSON_parse_stringify:
  assumes "wf_json v" and "JSON_stringify v = Inr t"
  shows "JSON_parse t = Inr v"
proof -
  from assms(2) have t: "SerializeJSONProperty v = Some t"
    by (simp add: JSON_stringify_def split: option.splits)
  have "parse_value (length t) (t @ []) = Some (v, [])"
    by (rule parse_value_text [OF assms(1) t json_measure_less_length [OF t] delimited_simps(4)])
  then show ?thesis by (simp add: JSON_parse_def skip_ws_def)
qed

section \<open>Properties of the transport codec\<close>

lemma encodeToUrlSafeBase64_url_safe:
  "encodeToUrlSafeBase64 rt v = (case encodeToBase64 rt v of Inl e \<Rightarrow> Inl e | Inr b \<Rightarrow> Inr (url_safe b))"
  by (cases "encodeToBase64 rt v") (simp_all add: encodeToUrlSafeBase64_def url_safe_def)

lemma decodeFromUrlSafeBase64_url_unsafe:
  "decodeFromUrlSafeBase64 rt t = decodeFromBase64 rt (url_unsafe t)"
  by (simp add: decodeFromUrlSafeBase64_def url_unsafe_def Let_def)

lemma encodeToBase64_is_base64:
  assumes "encodeToBase64 rt v = Inr b"
  shows "\<exists>bs. b = base64_encode bs"
  using assms
  by (auto simp: encodeToBase64_def btoa_def split: sum.splits if_splits option.splits)

lemma encodeToBase64_btoa:
  assumes "encodeToBase64 rt v = Inr b" and "btoa_defined rt"
  shows "\<exists>text. JSON_stringify v = Inr text \<and> (\<forall>u\<in>set text. u \<le> 255) \<and> b = base64_encode text"
  using assms
  by (auto simp: encodeToBase64_def btoa_def not_less split: sum.splits if_splits)

lemma encodeToBase64_latin1:
  assumes "JSON_stringify v = Inr text" and "\<forall>u\<in>set text. u \<le> 255" and "btoa_defined rt"
  shows "encodeToBase64 rt v = Inr (base64_encode text)"
  using assms by (auto simp: encodeToBase64_def btoa_def not_less)

lemma b64val_url_safe_char:
  "b64val c \<noteq> None \<Longrightarrow> url_safe_char (if (if c = 43 then 45 else c) = 47 then 95 else (if c = 43 then 45 else c))"
  by (auto simp: b64val_def url_safe_char_def split: if_splits)

lemma url_safe_chars: "list_all url_safe_char (url_safe (base64_encode bs))"
proof -
  have "list_all url_safe_char
          (map (\<lambda>u. if u = 47 then 95 else u) (map (\<lambda>u. if u = 43 then 45 else u) (map b64char ss)))" for ss
    by (induction ss) (simp_all add: b64val_url_safe_char [OF b64char_valid])
  then show ?thesis unfolding url_safe_shape .
qed

lemma url_safe_char_not_special: "url_safe_char c \<Longrightarrow> c \<noteq> 43 \<and> c \<noteq> 47 \<and> c \<noteq> 61"
  by (auto simp: url_safe_char_def)

lemma encoded_token_chars:
  assumes "encodeToUrlSafeBase64 rt v = Inr token"
  shows "list_all url_safe_char token"
proof -
  from assms obtain b where b: "encodeToBase64 rt v = Inr b" and token: "token = url_safe b"
    by (auto simp: encodeToUrlSafeBase64_url_safe split: sum.splits)
  from encodeToBase64_is_base64 [OF b] obtain bs where "b = base64_encode bs" ..
  with token show ?thesis by (simp add: url_safe_chars)
qed

text \<open>
  C8. Every token that \<^verbatim>\<open>encodeToUrlSafeBase64\<close> returns, in any runtime and for any
  value, consists of characters of \<open>[A-Za-z0-9_-]\<close> only; it holds no \<open>+\<close>, no \<open>/\<close> and
  no \<open>=\<close>.
\<close>

theorem token_is_url_safe:
  assumes "encodeToUrlSafeBase64 rt v = Inr token"
  shows "list_all url_safe_char token \<and> 43 \<notin> set token \<and> 47 \<notin> set token \<and> 61 \<notin> set token"
proof -
  from assms obtain b where b: "encodeToBase64 rt v = Inr b" and token: "token = url_safe b"
    by (auto simp: encodeToUrlSafeBase64_url_safe split: sum.splits)
  from encodeToBase64_is_base64 [OF b] obtain bs where "b = base64_encode bs" ..
  with token have chars: "list_all url_safe_char token" by (simp add: url_safe_chars)
  have "c \<noteq> 43 \<and> c \<noteq> 47 \<and> c \<noteq> 61" if "c \<in> set token" for c
    using chars that url_safe_char_not_special by (auto simp: list_all_iff)
  with chars show ?thesis by blast
qed

lemma sample_text: "JSON_stringify (JStr (js ''>>>???'')) = Inr (js ''\">>>???\"'')"
  by (simp add: JSON_stringify_def QuoteJSONString_def quote_unit_def js_def
      is_high_surrogate_def is_low_surrogate_def)

lemma sample_base64: "encodeToBase64 browser (JStr (js ''>>>???'')) = Inr (js ''Ij4+Pj8/PyI='')"
  by (simp add: encodeToBase64_def sample_text browser_def btoa_def)
    (simp add: base64_encode_def js_def b64char_def)

theorem token_is_url_safe_witness:
  "encodeToUrlSafeBase64 browser (JStr (js ''>>>???'')) = Inr (js ''Ij4-Pj8_PyI'')
   \<and> list_all url_safe_char (js ''Ij4-Pj8_PyI'')
   \<and> 43 \<notin> set (js ''Ij4-Pj8_PyI'') \<and> 47 \<notin> set (js ''Ij4-Pj8_PyI'') \<and> 61 \<notin> set (js ''Ij4-Pj8_PyI'')"
proof -
  have enc: "encodeToUrlSafeBase64 browser (JStr (js ''>>>???'')) = Inr (js ''Ij4-Pj8_PyI'')"
    by (simp add: encodeToUrlSafeBase64_def sample_base64) (simp add: replace_all_def js_def)
  from token_is_url_safe [OF enc] enc show ?thesis by simp
qed

subsection \<open>Decoding an encoded value\<close>

lemma decode_base64_encode:
  assumes "wf_json v" and "JSON_stringify v = Inr text" and "\<forall>u\<in>set text. u \<le> 255"
    and "atob_defined rt"
  shows "decodeFromBase64 rt (base64_encode text) = Inr v"
proof -
  have "\<forall>b\<in>set text. b < 256" using assms(3) by auto
  from atob_base64_encode [OF this] JSON_parse_stringify [OF assms(1,2)] assms(4)
  show ?thesis by (simp add: decodeFromBase64_def)
qed

theorem roundtrip_when_encoded:
  assumes "wf_json v" and "btoa_defined rt" and "atob_defined rt"
    and "encodeToUrlSafeBase64 rt v = Inr token"
  shows "decodeFromUrlSafeBase64 rt token = Inr v"
proof -
  from assms(4) obtain b where b: "encodeToBase64 rt v = Inr b" and token: "token = url_safe b"
    by (auto simp: encodeToUrlSafeBase64_url_safe split: sum.splits)
  from encodeToBase64_btoa [OF b assms(2)] obtain jsonString where
    jt: "JSON_stringify v = Inr jsonString" "\<forall>u\<in>set jsonString. u \<le> 255"
      "b = base64_encode jsonString" by blast
  show ?thesis
    unfolding decodeFromUrlSafeBase64_url_unsafe token jt(3) url_unsafe_url_safe
    by (rule decode_base64_encode [OF assms(1) jt(1,2) assms(3)])
qed

lemma those_all_Some:
  "\<forall>x\<in>set xs. \<exists>y. f x = Some y \<Longrightarrow> \<exists>ys. those (map f xs) = Some ys"
  by (induction xs) auto

lemma those_member_text_all_Some:
  "\<forall>kv\<in>set kvs. \<exists>t. f (snd kv) = Some t \<Longrightarrow>
     \<exists>ps. those (map member_text (map (map_prod id f) kvs)) = Some ps"
proof (induction kvs)
  case Nil
  show ?case by simp
next
  case (Cons kv kvs)
  from Cons.prems have "\<forall>kv\<in>set kvs. \<exists>t. f (snd kv) = Some t" by simp
  from Cons.IH [OF this] obtain ps where
    ps: "those (map member_text (map (map_prod id f) kvs)) = Some ps" by blast
  from Cons.prems obtain t where "f (snd kv) = Some t" by auto
  then have m: "member_text (map_prod id f kv) = Some (QuoteJSONString (fst kv) @ [58] @ t)"
    by (cases kv) (simp add: member_text_def)
  show ?case
    unfolding list.map those.simps m ps by simp
qed

lemma wf_json_serializes: "wf_json v \<Longrightarrow> \<exists>t. SerializeJSONProperty v = Some t"
proof (induction v)
  case (JArr vs)
  then have "\<forall>v\<in>set vs. \<exists>t. SerializeJSONProperty v = Some t"
    by (auto simp: list_all_iff)
  from those_all_Some [OF this] show ?case by auto
next
  case (JObj kvs)
  have "\<forall>kv\<in>set kvs. \<exists>t. SerializeJSONProperty (snd kv) = Some t"
  proof
    fix kv assume kv: "kv \<in> set kvs"
    moreover have "snd kv \<in> Basic_BNFs.snds kv" by (cases kv) (simp add: snds.simps)
    moreover have "wf_json (snd kv)" using JObj.prems kv by (auto simp: list_all_iff)
    ultimately show "\<exists>t. SerializeJSONProperty (snd kv) = Some t" using JObj.IH by blast
  qed
  from those_member_text_all_Some [OF this] show ?case by auto
qed simp_all

lemma serializes_iff_no_exception:
  "JSON_stringify v = Inl e \<longleftrightarrow> SerializeJSONProperty v = None \<and> e = TypeError"
  by (auto simp: JSON_stringify_def split: option.splits)

lemma base64Pattern_base64_encode: "base64Pattern (base64_encode bs)"
proof -
  have pad: "b64val 61 = None" by (simp add: b64val_def)
  have "dropWhile (\<lambda>c. b64val c \<noteq> None) (base64_encode bs)
      = dropWhile (\<lambda>c. b64val c \<noteq> None) (replicate (pad_count bs) 61)"
    unfolding base64_encode_shape by (rule dropWhile_append2) (use b64char_valid in auto)
  also have "\<dots> = replicate (pad_count bs) 61"
    by (cases "pad_count bs") (simp_all add: pad)
  finally have d: "dropWhile (\<lambda>c. b64val c \<noteq> None) (base64_encode bs) = replicate (pad_count bs) 61" .
  have "pad_count bs = 0 \<or> pad_count bs = 1 \<or> pad_count bs = 2"
    using pad_count_le [of bs] by linarith
  then show ?thesis
    unfolding base64Pattern_def d by (auto simp: numeral_2_eq_2)
qed

lemma length_base64_encode_mod4: "length (base64_encode bs) mod 4 = 0"
  using pad_total [of bs] by (simp add: base64_encode_shape)

text \<open>
  C4, as the code has it. \<^verbatim>\<open>isValidBase64\<close> validates standard base64: it accepts
  every text that \<^verbatim>\<open>encodeToBase64\<close> returns for a JSON value, and it accepts the token
  of \<^verbatim>\<open>encodeToUrlSafeBase64\<close> exactly when that token is the standard text itself
  (nothing was substituted and no padding was removed).
\<close>

theorem isValidBase64_of_encoded:
  assumes "wf_json v" and "btoa_defined rt" and "atob_defined rt"
  shows "(encodeToBase64 rt v = Inr b \<longrightarrow> isValidBase64 rt b)
       \<and> (encodeToUrlSafeBase64 rt v = Inr token \<longrightarrow>
            (isValidBase64 rt token \<longleftrightarrow> encodeToBase64 rt v = Inr token))"
proof -
  have std: "isValidBase64 rt b" if b: "encodeToBase64 rt v = Inr b" for b
  proof -
    from encodeToBase64_btoa [OF b assms(2)] obtain jsonString where
      jt: "JSON_stringify v = Inr jsonString" "\<forall>u\<in>set jsonString. u \<le> 255"
        "b = base64_encode jsonString" by blast
    have "decodeFromBase64 rt b = Inr v"
      unfolding jt(3) by (rule decode_base64_encode [OF assms(1) jt(1,2) assms(3)])
    with b show ?thesis
      by (simp add: isValidBase64_def jt(3) base64Pattern_base64_encode)
  qed
  have url: "encodeToBase64 rt v = Inr token"
    if token: "encodeToUrlSafeBase64 rt v = Inr token" and valid: "isValidBase64 rt token"
  proof -
    from token obtain b where b: "encodeToBase64 rt v = Inr b" and tb: "token = url_safe b"
      by (auto simp: encodeToUrlSafeBase64_url_safe split: sum.splits)
    from encodeToBase64_is_base64 [OF b] obtain bs where bs: "b = base64_encode bs" ..
    let ?plain = "map b64char (sextets bs)"
    have shape: "token = map (\<lambda>u. if u = 47 then 95 else u) (map (\<lambda>u. if u = 43 then 45 else u) ?plain)"
      unfolding tb bs by (rule url_safe_shape)
    from valid obtain d where pat: "base64Pattern token" and re: "encodeToBase64 rt d = Inr token"
      by (auto simp: isValidBase64_def split: if_splits sum.splits)
    from encodeToBase64_is_base64 [OF re] obtain bs' where "token = base64_encode bs'" ..
    then have "length token mod 4 = 0" by (simp add: length_base64_encode_mod4)
    then have "length (sextets bs) mod 4 = 0" by (simp add: shape)
    then have nopad: "pad_count bs = 0" by (simp add: pad_zero)
    have no61: "61 \<notin> set token"
      using encoded_token_chars [OF token] url_safe_char_not_special by (auto simp: list_all_iff)
    have "dropWhile (\<lambda>c. b64val c \<noteq> None) token = []"
    proof (rule ccontr)
      assume "dropWhile (\<lambda>c. b64val c \<noteq> None) token \<noteq> []"
      with pat have "61 \<in> set (dropWhile (\<lambda>c. b64val c \<noteq> None) token)"
        by (auto simp: base64Pattern_def)
      then have "61 \<in> set token" by (rule set_mp [OF set_dropWhileD [THEN subsetI], rotated]) 
      with no61 show False by simp
    qed
    then have allv: "\<forall>c\<in>set token. b64val c \<noteq> None" by (simp add: dropWhile_eq_Nil_conv)
    have "token = ?plain"
      unfolding shape map_map comp_def
    proof (rule map_cong [OF refl])
      fix s assume s: "s \<in> set (sextets bs)"
      let ?c = "b64char s"
      have "(if (if ?c = 43 then 45 else ?c) = 47 then 95 else (if ?c = 43 then 45 else ?c)) \<in> set token"
        unfolding shape using s by (simp add: comp_def image_iff) blast
      with allv have v: "b64val (if (if ?c = 43 then 45 else ?c) = 47 then 95 else (if ?c = 43 then 45 else ?c)) \<noteq> None"
        by blast
      show "(if (if ?c = 43 then 45 else ?c) = 47 then 95 else (if ?c = 43 then 45 else ?c)) = ?c"
        using b64val_not_special [OF v] by (auto split: if_splits)
    qed
    then have "token = b" by (simp add: bs base64_encode_shape nopad)
    with b show ?thesis by simp
  qed
  from std url show ?thesis by blast
qed

text \<open>
  What holds of the round trip. In a runtime with \<^verbatim>\<open>btoa\<close> and \<^verbatim>\<open>atob\<close>, for every
  value that JSON can write (finite numbers, no cycle) and for which encoding returns a
  token, decoding the token returns the value; and on every input the decoder restores
  \<open>(4 - len mod 4) mod 4\<close> pad characters before the byte-level decoding.
\<close>

theorem decode_inverts_encode:
  assumes "wf_json v" and "btoa_defined rt" and "atob_defined rt"
    and "encodeToUrlSafeBase64 rt v = Inr token"
  shows "decodeFromUrlSafeBase64 rt token = Inr v
    \<and> decodeFromUrlSafeBase64 rt t =
        decodeFromBase64 rt
          (replace_all 95 [47] (replace_all 45 [43] t)
           @ replicate ((4 - length (replace_all 95 [47] (replace_all 45 [43] t)) mod 4) mod 4) 61)"
  using roundtrip_when_encoded [OF assms]
  by (simp add: decodeFromUrlSafeBase64_url_unsafe url_unsafe_padding [symmetric])

lemma sample_home_text:
  "JSON_stringify (mapLocations_json [home]) = Inr (js ''[{\"lat\":1,\"lng\":2,\"name\":\"Home\"}]'')"
  by (simp add: JSON_stringify_def mapLocations_json_def MapLocation_json_def home_def place_def
      member_text_def QuoteJSONString_def quote_unit_def is_high_surrogate_def is_low_surrogate_def
      Number_toString_def digit_chars_def js_def)

lemma sample_home_base64:
  "encodeToBase64 browser (mapLocations_json [home])
     = Inr (js ''W3sibGF0IjoxLCJsbmciOjIsIm5hbWUiOiJIb21lIn1d'')"
  by (simp add: encodeToBase64_def sample_home_text browser_def btoa_def)
    (simp add: base64_encode_def js_def b64char_def)

lemma sample_home_token:
  "encodeToUrlSafeBase64 browser (mapLocations_json [home])
     = Inr (js ''W3sibGF0IjoxLCJsbmciOjIsIm5hbWUiOiJIb21lIn1d'')"
  by (simp add: encodeToUrlSafeBase64_def sample_home_base64) (simp add: replace_all_def js_def)

lemma sample_home_wf: "wf_json (mapLocations_json [home])"
  by (simp add: mapLocations_json_def MapLocation_json_def home_def place_def wf_number_def js_def)

theorem decode_inverts_encode_witness:
  "wf_json (mapLocations_json [home]) \<and> btoa_defined browser \<and> atob_defined browser
   \<and> encodeToUrlSafeBase64 browser (mapLocations_json [home])
       = Inr (js ''W3sibGF0IjoxLCJsbmciOjIsIm5hbWUiOiJIb21lIn1d'')
   \<and> decodeFromUrlSafeBase64 browser (js ''W3sibGF0IjoxLCJsbmciOjIsIm5hbWUiOiJIb21lIn1d'')
       = Inr (mapLocations_json [home])"
proof -
  have b: "btoa_defined browser" "atob_defined browser" by (simp_all add: browser_def)
  from decode_inverts_encode [OF sample_home_wf b sample_home_token, THEN conjunct1]
    sample_home_wf b sample_home_token
  show ?thesis by simp
qed

text \<open>
  A value that \<^verbatim>\<open>JSON.stringify\<close> accepts and JSON cannot write does not come back:
  \<^verbatim>\<open>NaN\<close> is encoded as \<^verbatim>\<open>null\<close> and decodes to \<^verbatim>\<open>null\<close>.
\<close>

theorem NaN_decodes_to_null:
  "JSON_stringify JNonFinite = Inr (js ''null'')
   \<and> encodeToUrlSafeBase64 browser JNonFinite = Inr (js ''bnVsbA'')
   \<and> decodeFromUrlSafeBase64 browser (js ''bnVsbA'') = Inr JNull
   \<and> JNull \<noteq> JNonFinite"
proof -
  have 1: "JSON_stringify JNonFinite = Inr (js ''null'')" by (simp add: JSON_stringify_def)
  have 2: "encodeToUrlSafeBase64 browser JNonFinite = Inr (js ''bnVsbA'')" by code_simp
  have 3: "decodeFromUrlSafeBase64 browser (js ''bnVsbA'') = Inr JNull" by code_simp
  from 1 2 3 show ?thesis by simp
qed

theorem isValidBase64_of_encoded_witness:
  "wf_json (JNum (Number False [1] 1)) \<and> btoa_defined browser \<and> atob_defined browser
   \<and> encodeToBase64 browser (JNum (Number False [1] 1)) = Inr (js ''MQ=='')
   \<and> isValidBase64 browser (js ''MQ=='')
   \<and> encodeToUrlSafeBase64 browser (JNum (Number False [1] 1)) = Inr (js ''MQ'')
   \<and> encodeToBase64 browser (JNum (Number False [1] 1)) \<noteq> Inr (js ''MQ'')
   \<and> \<not> isValidBase64 browser (js ''MQ'')"
proof -
  have wf: "wf_json (JNum (Number False [1] 1))" by (simp add: wf_number_def)
  have b: "btoa_defined browser" "atob_defined browser" by (simp_all add: browser_def)
  have e: "encodeToBase64 browser (JNum (Number False [1] 1)) = Inr (js ''MQ=='')" by code_simp
  have u: "encodeToUrlSafeBase64 browser (JNum (Number False [1] 1)) = Inr (js ''MQ'')" by code_simp
  have ne: "js ''MQ=='' \<noteq> js ''MQ''" by (simp add: js_def)
  from isValidBase64_of_encoded [OF wf b, of "js ''MQ==''" "js ''MQ''"] e u ne wf b
  show ?thesis by simp
qed

text \<open>
  C4 as stated fails: the token of the number 1 is \<^verbatim>\<open>MQ\<close>, which
  \<^verbatim>\<open>isValidBase64\<close> rejects (re-encoding gives \<^verbatim>\<open>MQ==\<close>).
\<close>

theorem url_safe_token_fails_validation:
  "encodeToUrlSafeBase64 browser (JNum (Number False [1] 1)) = Inr (js ''MQ'')
   \<and> isValidBase64 browser (js ''MQ'') = False"
proof -
  have u: "encodeToUrlSafeBase64 browser (JNum (Number False [1] 1)) = Inr (js ''MQ'')" by code_simp
  have v: "isValidBase64 browser (js ''MQ'') = False" by code_simp
  from u v show ?thesis by simp
qed

lemma tokyo_text: "JSON_stringify (mapLocations_json [tokyo]) =
   Inr (js ''[{\"lat\":35.6762,\"lng\":139.6503,\"name\":\"'' @ [0x6771, 0x4EAC] @ js ''\"}]'')"
  by (simp add: JSON_stringify_def mapLocations_json_def MapLocation_json_def tokyo_def member_text_def
      QuoteJSONString_def quote_unit_def is_high_surrogate_def is_low_surrogate_def Number_toString_def
      digit_chars_def js_def)

text \<open>
  C1 fails on the code. The string of the two code units U+6771 U+4EAC is a JSON value
  and \<^verbatim>\<open>JSON.stringify\<close> returns its text; in a browser the encoder throws on it, so
  there is no token to decode.
\<close>

theorem roundtrip_throws_on_non_latin1_string:
  "wf_json (JStr [0x6771, 0x4EAC])
   \<and> JSON_stringify (JStr [0x6771, 0x4EAC]) = Inr [34, 0x6771, 0x4EAC, 34]
   \<and> encodeToUrlSafeBase64 browser (JStr [0x6771, 0x4EAC]) = Inl (FailedToEncode InvalidCharacterError)"
proof -
  have t: "JSON_stringify (JStr [0x6771, 0x4EAC]) = Inr [34, 0x6771, 0x4EAC, 34]"
    by (simp add: JSON_stringify_def QuoteJSONString_def quote_unit_def
        is_high_surrogate_def is_low_surrogate_def)
  have "encodeToUrlSafeBase64 browser (JStr [0x6771, 0x4EAC]) = Inl (FailedToEncode InvalidCharacterError)"
    by (simp add: encodeToUrlSafeBase64_def encodeToBase64_def t browser_def btoa_def)
  with t show ?thesis by simp
qed

text \<open>
  C5 fails on the code: a valid location list whose name holds a code unit above U+00FF is
  serializable (\<^verbatim>\<open>JSON.stringify\<close> returns its text), and in a browser the encoder
  throws, because \<^verbatim>\<open>btoa\<close> rejects the text.
\<close>

theorem encode_throws_on_serializable_list:
  "valid_location tokyo
   \<and> wf_json (mapLocations_json [tokyo])
   \<and> JSON_stringify (mapLocations_json [tokyo]) =
       Inr (js ''[{\"lat\":35.6762,\"lng\":139.6503,\"name\":\"'' @ [0x6771, 0x4EAC] @ js ''\"}]'')
   \<and> encodeToBase64 browser (mapLocations_json [tokyo]) = Inl (FailedToEncode InvalidCharacterError)
   \<and> encodeToUrlSafeBase64 browser (mapLocations_json [tokyo]) = Inl (FailedToEncode InvalidCharacterError)"
proof -
  have v: "valid_location tokyo"
    by (simp add: valid_location_def tokyo_def num_val_def nat_of_digits_def)
  have wf: "wf_json (mapLocations_json [tokyo])"
    by (simp add: mapLocations_json_def MapLocation_json_def tokyo_def wf_number_def js_def)
  have e: "encodeToBase64 browser (mapLocations_json [tokyo]) = Inl (FailedToEncode InvalidCharacterError)"
    by (simp add: encodeToBase64_def tokyo_text browser_def btoa_def)
  then have u: "encodeToUrlSafeBase64 browser (mapLocations_json [tokyo]) = Inl (FailedToEncode InvalidCharacterError)"
    by (simp add: encodeToUrlSafeBase64_def)
  from v wf tokyo_text e u show ?thesis by simp
qed

text \<open>The result of the encoder where \<^verbatim>\<open>btoa\<close> is defined, case by case.\<close>

theorem encode_result:
  assumes "btoa_defined rt"
  shows "encodeToUrlSafeBase64 rt v =
     (case SerializeJSONProperty v of
        None \<Rightarrow> Inl (FailedToEncode TypeError)
      | Some jsonString \<Rightarrow>
          if list_ex (\<lambda>u. 255 < u) jsonString then Inl (FailedToEncode InvalidCharacterError)
          else Inr (url_safe (base64_encode jsonString)))"
  using assms
  by (simp add: encodeToUrlSafeBase64_url_safe encodeToBase64_def JSON_stringify_def btoa_def
      list_ex_iff split: option.splits)

theorem encode_result_witness:
  "btoa_defined browser
   \<and> encodeToUrlSafeBase64 browser (JArr [JBackRef]) = Inl (FailedToEncode TypeError)
   \<and> encodeToUrlSafeBase64 browser (JStr [0x6771, 0x4EAC]) = Inl (FailedToEncode InvalidCharacterError)
   \<and> encodeToUrlSafeBase64 browser (JStr (js ''>>>???'')) = Inr (js ''Ij4-Pj8_PyI'')"
proof -
  have b: "btoa_defined browser" by (simp add: browser_def)
  have 1: "encodeToUrlSafeBase64 browser (JArr [JBackRef]) = Inl (FailedToEncode TypeError)"
    using encode_result [OF b, of "JArr [JBackRef]"] by simp
  have 2: "encodeToUrlSafeBase64 browser (JStr [0x6771, 0x4EAC]) = Inl (FailedToEncode InvalidCharacterError)"
    using encode_result [OF b, of "JStr [0x6771, 0x4EAC]"]
    by (simp add: QuoteJSONString_def quote_unit_def is_high_surrogate_def is_low_surrogate_def)
  have 3: "encodeToUrlSafeBase64 browser (JStr (js ''>>>???'')) = Inr (js ''Ij4-Pj8_PyI'')"
    by (simp add: encodeToUrlSafeBase64_def sample_base64) (simp add: replace_all_def js_def)
  from b 1 2 3 show ?thesis by simp
qed

section \<open>Properties of sharing\<close>

lemma utf8_encode_ascii: "\<forall>u\<in>set s. u < 128 \<Longrightarrow> utf8_encode s = s"
  by (induction s rule: utf8_encode.induct)
    (auto simp: utf8_unit_def is_high_surrogate_def is_low_surrogate_def)

lemma urlencode_url_safe:
  assumes "list_all url_safe_char s"
  shows "urlencode s = s"
proof -
  from assms have "\<forall>u\<in>set s. u < 128" by (auto simp: list_all_iff url_safe_char_def)
  then have "utf8_encode s = s" by (rule utf8_encode_ascii)
  moreover have "concat (map urlencode_byte s) = s"
    using assms by (induction s) (auto simp: urlencode_byte_def url_safe_char_def)
  ultimately show ?thesis by (simp add: urlencode_def)
qed

lemma share_url_text:
  assumes "searchParams (location win) = []" and "list_all url_safe_char token"
  shows "URL_toString (searchParams_set (js ''locations'') token
           (searchParams_delete (js ''locations'') (location win)))
         = origin_path (location win) @ js ''?locations='' @ token @ fragment (location win)"
proof -
  have "list_all url_safe_char (js ''locations'')" by (simp add: js_def url_safe_char_def)
  then have "urlencode (js ''locations'') = js ''locations''" by (rule urlencode_url_safe)
  then show ?thesis
    using assms(1) urlencode_url_safe [OF assms(2)]
    by (simp add: URL_toString_def searchParams_set_def searchParams_delete_def) (simp add: js_def)
qed

lemma URL_toString_nonempty: "searchParams u \<noteq> [] \<Longrightarrow> URL_toString u \<noteq> []"
  by (simp add: URL_toString_def)

lemma searchParams_set_nonempty: "searchParams (searchParams_set k v u) \<noteq> []"
  by (simp add: searchParams_set_def)

lemma generate_result:
  assumes "mapLocations st \<noteq> []"
    and "encodeToUrlSafeBase64 rt (mapLocations_json (mapLocations st)) = Inr token"
  shows "generateLocationsShareUrl rt win st =
     Inr (URL_toString (searchParams_set (js ''locations'') token
            (searchParams_delete (js ''locations'') (location win))),
          st\<lparr>locationsShareUrl :=
               URL_toString (searchParams_set (js ''locations'') token
                 (searchParams_delete (js ''locations'') (location win)))\<rparr>)"
  using assms by (simp add: generateLocationsShareUrl_def Let_def)

text \<open>
  C10. With a stored share URL, the copy operation hands that URL to the clipboard and
  encodes nothing, whatever the list is now: after a share URL was generated, a map-click
  add or a delete leaves the stored URL in place and the copy still carries the token of
  the older list. With no stored URL it generates one from the current list; an empty
  list gives the empty string, and nothing is copied.
\<close>

theorem copy_reuses_stored_share_url:
  "(locationsShareUrl st \<noteq> [] \<longrightarrow>
      copyLocationsShareUrl rt win st =
        Inr \<lparr>clipboard_text = Some (locationsShareUrl st),
             alerted = Some (if clipboard_accepts win then ShareUrlCopied else FailedToCopyUrl),
             app_after = st\<rparr>)
   \<and> (locationsShareUrl st = [] \<and> mapLocations st = [] \<longrightarrow>
      copyLocationsShareUrl rt win st = Inr \<lparr>clipboard_text = None, alerted = None, app_after = st\<rparr>)
   \<and> (locationsShareUrl st = [] \<and> mapLocations st \<noteq> []
        \<and> encodeToUrlSafeBase64 rt (mapLocations_json (mapLocations st)) = Inr token \<longrightarrow>
      copyLocationsShareUrl rt win st =
        Inr \<lparr>clipboard_text =
               Some (URL_toString (searchParams_set (js ''locations'') token
                       (searchParams_delete (js ''locations'') (location win)))),
             alerted = Some (if clipboard_accepts win then ShareUrlCopied else FailedToCopyUrl),
             app_after =
               st\<lparr>locationsShareUrl :=
                    URL_toString (searchParams_set (js ''locations'') token
                      (searchParams_delete (js ''locations'') (location win)))\<rparr>\<rparr>)
   \<and> (mapLocations st \<noteq> [] \<and> generateLocationsShareUrl rt win st = Inr (url, st') \<longrightarrow>
      url \<noteq> [] \<and> locationsShareUrl st' = url
      \<and> copyLocationsShareUrl rt win (handleMapAddLocation la lo d st') =
          Inr \<lparr>clipboard_text = Some url,
               alerted = Some (if clipboard_accepts win then ShareUrlCopied else FailedToCopyUrl),
               app_after = handleMapAddLocation la lo d st'\<rparr>
      \<and> copyLocationsShareUrl rt win (deleteLocation i st') =
          Inr \<lparr>clipboard_text = Some url,
               alerted = Some (if clipboard_accepts win then ShareUrlCopied else FailedToCopyUrl),
               app_after = deleteLocation i st'\<rparr>)"
proof -
  have stored: "copyLocationsShareUrl rt win s =
        Inr \<lparr>clipboard_text = Some (locationsShareUrl s),
             alerted = Some (if clipboard_accepts win then ShareUrlCopied else FailedToCopyUrl),
             app_after = s\<rparr>" if "locationsShareUrl s \<noteq> []" for s
    using that by (simp add: copyLocationsShareUrl_def)
  have empty: "copyLocationsShareUrl rt win st = Inr \<lparr>clipboard_text = None, alerted = None, app_after = st\<rparr>"
    if "locationsShareUrl st = []" "mapLocations st = []"
    using that by (simp add: copyLocationsShareUrl_def generateLocationsShareUrl_def)
  have fresh: "copyLocationsShareUrl rt win st =
        Inr \<lparr>clipboard_text =
               Some (URL_toString (searchParams_set (js ''locations'') token
                       (searchParams_delete (js ''locations'') (location win)))),
             alerted = Some (if clipboard_accepts win then ShareUrlCopied else FailedToCopyUrl),
             app_after =
               st\<lparr>locationsShareUrl :=
                    URL_toString (searchParams_set (js ''locations'') token
                      (searchParams_delete (js ''locations'') (location win)))\<rparr>\<rparr>"
    if "locationsShareUrl st = []" "mapLocations st \<noteq> []"
      "encodeToUrlSafeBase64 rt (mapLocations_json (mapLocations st)) = Inr token"
    using that generate_result [OF that(2,3), of win]
      URL_toString_nonempty [OF searchParams_set_nonempty]
    by (simp add: copyLocationsShareUrl_def)
  have stale: "url \<noteq> [] \<and> locationsShareUrl st' = url
      \<and> copyLocationsShareUrl rt win (handleMapAddLocation la lo d st') =
          Inr \<lparr>clipboard_text = Some url,
               alerted = Some (if clipboard_accepts win then ShareUrlCopied else FailedToCopyUrl),
               app_after = handleMapAddLocation la lo d st'\<rparr>
      \<and> copyLocationsShareUrl rt win (deleteLocation i st') =
          Inr \<lparr>clipboard_text = Some url,
               alerted = Some (if clipboard_accepts win then ShareUrlCopied else FailedToCopyUrl),
               app_after = deleteLocation i st'\<rparr>"
    if ne: "mapLocations st \<noteq> []" and gen: "generateLocationsShareUrl rt win st = Inr (url, st')"
  proof -
    from gen ne obtain tok where
      tok: "encodeToUrlSafeBase64 rt (mapLocations_json (mapLocations st)) = Inr tok"
      by (auto simp: generateLocationsShareUrl_def split: sum.splits)
    from generate_result [OF ne tok, of win] gen
    have url: "url = URL_toString (searchParams_set (js ''locations'') tok
                       (searchParams_delete (js ''locations'') (location win)))"
      and st': "st' = st\<lparr>locationsShareUrl := url\<rparr>" by simp_all
    have nonempty: "url \<noteq> []"
      unfolding url by (rule URL_toString_nonempty [OF searchParams_set_nonempty])
    have a: "locationsShareUrl (handleMapAddLocation la lo d st') = url"
      by (simp add: handleMapAddLocation_def st' Let_def)
    have b: "locationsShareUrl (deleteLocation i st') = url"
      by (simp add: deleteLocation_def st')
    from stored [of "handleMapAddLocation la lo d st'"] stored [of "deleteLocation i st'"] a b nonempty st'
    show ?thesis by simp
  qed
  from stored [of st] empty fresh stale show ?thesis by blast
qed

lemma sample_two_text:
  "JSON_stringify (mapLocations_json [home, work])
     = Inr (js ''[{\"lat\":1,\"lng\":2,\"name\":\"Home\"},{\"lat\":2,\"lng\":1,\"name\":\"Work\"}]'')"
  by (simp add: JSON_stringify_def mapLocations_json_def MapLocation_json_def home_def work_def place_def
      member_text_def QuoteJSONString_def quote_unit_def is_high_surrogate_def is_low_surrogate_def
      Number_toString_def digit_chars_def js_def)

lemma sample_two_token:
  "encodeToUrlSafeBase64 browser (mapLocations_json [home, work])
     = Inr (js ''W3sibGF0IjoxLCJsbmciOjIsIm5hbWUiOiJIb21lIn0seyJsYXQiOjIsImxuZyI6MSwibmFtZSI6IldvcmsifV0'')"
  by (simp add: encodeToUrlSafeBase64_def encodeToBase64_def sample_two_text browser_def btoa_def)
    (simp add: base64_encode_def js_def b64char_def replace_all_def)

lemma sample_generate:
  "generateLocationsShareUrl browser (page_url []) home_only
     = Inr (home_url, home_only\<lparr>locationsShareUrl := home_url\<rparr>)"
proof -
  let ?token = "js ''W3sibGF0IjoxLCJsbmciOjIsIm5hbWUiOiJIb21lIn1d''"
  have tok: "encodeToUrlSafeBase64 browser (mapLocations_json (mapLocations home_only)) = Inr ?token"
    by (simp add: home_only_def sample_home_token)
  have ne: "mapLocations home_only \<noteq> []" by (simp add: home_only_def)
  have safe: "list_all url_safe_char ?token"
    using encoded_token_chars [OF tok] by simp
  have sp: "searchParams (location (page_url [])) = []" by (simp add: page_url_def)
  have "URL_toString (searchParams_set (js ''locations'') ?token
           (searchParams_delete (js ''locations'') (location (page_url []))))
        = origin_path (location (page_url [])) @ js ''?locations='' @ ?token
          @ fragment (location (page_url []))"
    by (rule share_url_text [OF sp safe])
  also have "\<dots> = home_url" by (simp add: page_url_def home_url_def js_def)
  finally show ?thesis
    using generate_result [OF ne tok, of "page_url []"] by simp
qed

theorem copy_reuses_stored_share_url_witness:
  "mapLocations home_only \<noteq> []
   \<and> generateLocationsShareUrl browser (page_url []) home_only
       = Inr (home_url, home_only\<lparr>locationsShareUrl := home_url\<rparr>)
   \<and> mapLocations (handleMapAddLocation (Number False [2] 1) (Number False [1] 1) (js ''Work'', [])
         (home_only\<lparr>locationsShareUrl := home_url\<rparr>)) = [home, work]
   \<and> copyLocationsShareUrl browser (page_url [])
         (handleMapAddLocation (Number False [2] 1) (Number False [1] 1) (js ''Work'', [])
            (home_only\<lparr>locationsShareUrl := home_url\<rparr>))
       = Inr \<lparr>clipboard_text = Some home_url, alerted = Some ShareUrlCopied,
              app_after = handleMapAddLocation (Number False [2] 1) (Number False [1] 1) (js ''Work'', [])
                (home_only\<lparr>locationsShareUrl := home_url\<rparr>)\<rparr>
   \<and> encodeToUrlSafeBase64 browser (mapLocations_json [home])
       = Inr (js ''W3sibGF0IjoxLCJsbmciOjIsIm5hbWUiOiJIb21lIn1d'')
   \<and> encodeToUrlSafeBase64 browser (mapLocations_json [home, work])
       = Inr (js ''W3sibGF0IjoxLCJsbmciOjIsIm5hbWUiOiJIb21lIn0seyJsYXQiOjIsImxuZyI6MSwibmFtZSI6IldvcmsifV0'')"
proof -
  have ne: "mapLocations home_only \<noteq> []" by (simp add: home_only_def)
  have two: "mapLocations (handleMapAddLocation (Number False [2] 1) (Number False [1] 1) (js ''Work'', [])
         (home_only\<lparr>locationsShareUrl := home_url\<rparr>)) = [home, work]"
    by (simp add: handleMapAddLocation_def home_only_def home_def work_def place_def)
  have acc: "clipboard_accepts (page_url [])" by (simp add: page_url_def)
  from copy_reuses_stored_share_url [of "home_only" browser "page_url []" "[]" home_url
      "home_only\<lparr>locationsShareUrl := home_url\<rparr>" "Number False [2] 1" "Number False [1] 1"
      "(js ''Work'', [])" 0]
    ne sample_generate two acc sample_home_token sample_two_token
  show ?thesis by simp
qed

section \<open>The store invariant\<close>

lemma defaults_valid: "store_valid (initialApp m)"
  by (simp add: store_valid_def initialApp_def defaultLocations_def valid_location_def num_val_def nat_of_digits_def js_def)

lemma addLocation_valid: "store_valid st \<Longrightarrow> store_valid (snd (addLocation pf st))"
  by (auto simp: store_valid_def addLocation_def valid_location_def Let_def split: option.splits)

lemma deleteLocation_valid: "store_valid st \<Longrightarrow> store_valid (deleteLocation i st)"
  unfolding store_valid_def deleteLocation_take_drop
  by (auto simp: list_all_iff dest: in_set_takeD in_set_dropD)

text \<open>
  C2 fails on the code. The seeded list is valid, and the form add and the delete keep
  the store valid; the map-click add appends what it is given, and the list decoded from
  the URL replaces the store unchecked.
\<close>

theorem unvalidated_paths_break_store_invariant:
  "store_valid (initialApp False)
   \<and> \<not> store_valid (handleMapAddLocation (Number False [] 0) (Number False [2] 3) (js ''X'', [])
                        (initialApp False))
   \<and> loadLocationsFromUrl browser
        (page_url [(js ''locations'', js ''W3sibGF0Ijo5MSwibG5nIjowLCJuYW1lIjoiIn1d'')])
        (initialApp False)
       = Some (None, (initialApp False)\<lparr>mapLocations := [bad_record]\<rparr>)
   \<and> \<not> store_valid ((initialApp False)\<lparr>mapLocations := [bad_record]\<rparr>)"
proof -
  have 1: "\<not> store_valid (handleMapAddLocation (Number False [] 0) (Number False [2] 3) (js ''X'', [])
                        (initialApp False))"
    by (simp add: store_valid_def valid_location_def handleMapAddLocation_def num_val_def nat_of_digits_def)
  have 2: "loadLocationsFromUrl browser
        (page_url [(js ''locations'', js ''W3sibGF0Ijo5MSwibG5nIjowLCJuYW1lIjoiIn1d'')])
        (initialApp False)
       = Some (None, (initialApp False)\<lparr>mapLocations := [bad_record]\<rparr>)"
    by code_simp
  have 3: "\<not> store_valid ((initialApp False)\<lparr>mapLocations := [bad_record]\<rparr>)"
    by (simp add: store_valid_def valid_location_def bad_record_def)
  from defaults_valid [of False] 1 2 3 show ?thesis by simp
qed

section \<open>Properties of the focus designation\<close>

text \<open>
  C3 fails on the code. A click at time 0 and a second click at time 3000: at time 5000
  the callback of the first click runs and clears the focus of the second, 2000 ms after it
  was set; the second click's own callback is still pending, for time 8000.
\<close>

theorem older_timeout_clears_newer_focus:
  "openPopupLocationIndex (app (handleLocationClick work 1 (run_until 3000 (handleLocationClick home 0 fresh_page)))) = Some 1
   \<and> now (run_until 5000 (handleLocationClick work 1 (run_until 3000 (handleLocationClick home 0 fresh_page)))) = 5000
   \<and> openPopupLocationIndex (app (run_until 5000 (handleLocationClick work 1 (run_until 3000 (handleLocationClick home 0 fresh_page))))) = None
   \<and> targetLocation (app (run_until 5000 (handleLocationClick work 1 (run_until 3000 (handleLocationClick home 0 fresh_page))))) = None
   \<and> timeouts (run_until 5000 (handleLocationClick work 1 (run_until 3000 (handleLocationClick home 0 fresh_page)))) = [8000]"
  by (simp add: run_until_def handleLocationClick_def clearTarget_def fresh_page_def initialApp_def)

section \<open>Further properties\<close>

text \<open>
  The zoom is one of nine values, whatever the store holds.
\<close>

theorem mapBounds_zoom_enumeration:
  "zoom (mapBounds m locs) \<in> {2, 3, 4, 5, 7, 8, 10, 11, 13}"
proof (cases locs)
  case Nil
  then show ?thesis by (simp add: mapBounds_def)
next
  case (Cons l0 rest)
  show ?thesis
  proof (cases rest)
    case Nil
    with Cons show ?thesis by (simp add: mapBounds_def)
  next
    case (Cons l1 ls)
    have "zoom (mapBounds m (l0 # l1 # ls)) \<in> {2, 3, 4, 5, 7, 8, 10, 11, 13}"
      unfolding zoom_tiers by (cases "tier_of_span (span_of (l0 # l1 # ls))") auto
    with \<open>locs = l0 # rest\<close> Cons show ?thesis by simp
  qed
qed

text \<open>
  The center of a non-empty set of valid records has a latitude in [-90, 90] and a
  longitude in [-180, 180].
\<close>

theorem center_within_valid_bounds:
  assumes "locs \<noteq> []" and "list_all valid_location locs"
  shows "dle (decimal True 90 0) (fst (center (mapBounds m locs)))
       \<and> dle (fst (center (mapBounds m locs))) (decimal False 90 0)
       \<and> dle (decimal True 180 0) (snd (center (mapBounds m locs)))
       \<and> dle (snd (center (mapBounds m locs))) (decimal False 180 0)"
proof -
  have la: "\<forall>l\<in>set locs. \<bar>num_val (lat l)\<bar> \<le> real 6333186975989760 * 2 powi (- 46)"
    and lo: "\<forall>l\<in>set locs. \<bar>num_val (lng l)\<bar> \<le> real 6333186975989760 * 2 powi (- 45)"
    using assms(2) unfolding bound_values by (auto simp: list_all_iff valid_location_def)
  have m: "(6333186975989760::nat) < 2 ^ 53" by simp
  have "bounded_by (real 6333186975989760 * 2 powi (- 46)) (fst (center (mapBounds m locs)))
      \<and> bounded_by (real 6333186975989760 * 2 powi (- 45)) (snd (center (mapBounds m locs)))"
  proof (cases locs)
    case Nil
    with assms(1) show ?thesis by simp
  next
    case (Cons l0 rest)
    show ?thesis
    proof (cases rest)
      case Nil
      have "bounded_by (real 6333186975989760 * 2 powi (- 46)) (double_of (lat l0))"
        by (rule double_of_within [OF _ m]) (use la Cons in simp_all)
      moreover have "bounded_by (real 6333186975989760 * 2 powi (- 45)) (double_of (lng l0))"
        by (rule double_of_within [OF _ m]) (use lo Cons in simp_all)
      ultimately show ?thesis unfolding Cons Nil by (simp add: mapBounds_def)
    next
      case (Cons l1 ls)
      from midpoint_bounded [OF assms(1) la m] midpoint_bounded [OF assms(1) lo m]
      show ?thesis
        unfolding \<open>locs = l0 # rest\<close> Cons center_of_many fst_conv snd_conv by simp
    qed
  qed
  then show ?thesis
    using bounded_by_dle unfolding bound_doubles by blast
qed

theorem center_within_valid_bounds_witness:
  "[home, work] \<noteq> [] \<and> list_all valid_location [home, work]
   \<and> center (mapBounds False [home, work]) = (decimal False 15 (- 1), decimal False 15 (- 1))
   \<and> dle (decimal True 90 0) (decimal False 15 (- 1))
   \<and> dle (decimal False 15 (- 1)) (decimal False 90 0)
   \<and> dle (decimal True 180 0) (decimal False 15 (- 1))
   \<and> dle (decimal False 15 (- 1)) (decimal False 180 0)"
proof -
  have v: "list_all valid_location [home, work]"
    by (simp add: valid_location_def home_def work_def place_def num_val_def nat_of_digits_def js_def)
  have c: "center (mapBounds False [home, work]) = (decimal False 15 (- 1), decimal False 15 (- 1))"
    by (simp add: mapBounds_def home_def work_def place_def double_of_def nat_of_digits_def double_eval)
  from center_within_valid_bounds [of "[home, work]" False] v show ?thesis
    unfolding c by simp
qed

text \<open>
  The bounding box. On a non-empty store the least and the greatest latitude that the
  fitter computes are latitudes of the store, every latitude lies between them, and the
  latitude span is their difference; likewise for the longitudes.
\<close>

theorem bounding_box:
  assumes "locs \<noteq> []"
  shows "Math_min (map (\<lambda>l. double_of (lat l)) locs) \<in> set (map (\<lambda>l. double_of (lat l)) locs)
     \<and> Math_max (map (\<lambda>l. double_of (lat l)) locs) \<in> set (map (\<lambda>l. double_of (lat l)) locs)
     \<and> (\<forall>l\<in>set locs. dle (Math_min (map (\<lambda>l. double_of (lat l)) locs)) (double_of (lat l))
                     \<and> dle (double_of (lat l)) (Math_max (map (\<lambda>l. double_of (lat l)) locs)))
     \<and> Math_min (map (\<lambda>l. double_of (lng l)) locs) \<in> set (map (\<lambda>l. double_of (lng l)) locs)
     \<and> Math_max (map (\<lambda>l. double_of (lng l)) locs) \<in> set (map (\<lambda>l. double_of (lng l)) locs)
     \<and> (\<forall>l\<in>set locs. dle (Math_min (map (\<lambda>l. double_of (lng l)) locs)) (double_of (lng l))
                     \<and> dle (double_of (lng l)) (Math_max (map (\<lambda>l. double_of (lng l)) locs)))
     \<and> lat_span locs = dsub (Math_max (map (\<lambda>l. double_of (lat l)) locs))
                              (Math_min (map (\<lambda>l. double_of (lat l)) locs))
     \<and> lng_span locs = dsub (Math_max (map (\<lambda>l. double_of (lng l)) locs))
                              (Math_min (map (\<lambda>l. double_of (lng l)) locs))"
  unfolding lat_span_def lng_span_def
  using least_and_greatest [OF assms, of lat] least_and_greatest [OF assms, of lng]
  by blast

theorem bounding_box_witness:
  "[home, work] \<noteq> []
   \<and> Math_min (map (\<lambda>l. double_of (lat l)) [home, work]) = decimal False 1 0
   \<and> Math_max (map (\<lambda>l. double_of (lat l)) [home, work]) = decimal False 2 0
   \<and> decimal False 1 0 \<in> set (map (\<lambda>l. double_of (lat l)) [home, work])
   \<and> lat_span [home, work] = decimal False 1 0"
proof -
  have lo: "Math_min (map (\<lambda>l. double_of (lat l)) [home, work]) = decimal False 1 0"
    by (simp add: home_def work_def place_def double_of_def nat_of_digits_def double_eval)
  have hi: "Math_max (map (\<lambda>l. double_of (lat l)) [home, work]) = decimal False 2 0"
    by (simp add: home_def work_def place_def double_of_def nat_of_digits_def double_eval)
  have sp: "dsub (decimal False 2 0) (decimal False 1 0) = decimal False 1 0"
    by (simp add: double_eval)
  from bounding_box [of "[home, work]"] show ?thesis
    unfolding lo hi sp by simp
qed

text \<open>
  The tier is decided by the rounded span. The latitudes 0.2 and 0.3 have the span
  \<^verbatim>\<open>0.09999999999999998\<close>, below the double \<^verbatim>\<open>0.1\<close>, and get the city zoom; the latitudes
  0.7 and 0.8 have the span \<^verbatim>\<open>0.10000000000000009\<close> and get the regional zoom.
\<close>

theorem rounded_span_decides_the_tier:
  "dsub (decimal False 3 (- 1)) (decimal False 2 (- 1)) = Finite False 7205759403792792 (- 56)
   \<and> decimal False 1 (- 1) = Finite False 7205759403792794 (- 56)
   \<and> mapBounds m [place (Number False [2] 0) (Number False [] 0) ''A'',
                   place (Number False [3] 0) (Number False [] 0) ''B'']
       = \<lparr>center = (decimal False 25 (- 2), decimal False 0 0), zoom = (if m then 8 else 10)\<rparr>
   \<and> dsub (decimal False 8 (- 1)) (decimal False 7 (- 1)) = Finite False 7205759403792800 (- 56)
   \<and> mapBounds m [place (Number False [7] 0) (Number False [] 0) ''A'',
                   place (Number False [8] 0) (Number False [] 0) ''B'']
       = \<lparr>center = (decimal False 75 (- 2), decimal False 0 0), zoom = (if m then 5 else 7)\<rparr>"
proof -
  have a: "dsub (decimal False 3 (- 1)) (decimal False 2 (- 1)) = Finite False 7205759403792792 (- 56)"
    by (simp add: double_eval)
  have b: "decimal False 1 (- 1) = Finite False 7205759403792794 (- 56)"
    by (simp add: double_eval)
  have c: "mapBounds m [place (Number False [2] 0) (Number False [] 0) ''A'',
                   place (Number False [3] 0) (Number False [] 0) ''B'']
       = \<lparr>center = (decimal False 25 (- 2), decimal False 0 0), zoom = (if m then 8 else 10)\<rparr>"
    by (simp add: mapBounds_def place_def double_of_def nat_of_digits_def double_eval)
  have d: "dsub (decimal False 8 (- 1)) (decimal False 7 (- 1)) = Finite False 7205759403792800 (- 56)"
    by (simp add: double_eval)
  have e: "mapBounds m [place (Number False [7] 0) (Number False [] 0) ''A'',
                   place (Number False [8] 0) (Number False [] 0) ''B'']
       = \<lparr>center = (decimal False 75 (- 2), decimal False 0 0), zoom = (if m then 5 else 7)\<rparr>"
    by (simp add: mapBounds_def place_def double_of_def nat_of_digits_def double_eval)
  from a b c d e show ?thesis by (simp only: simp_thms)
qed

text \<open>
  The seeded store is valid; the form add and the delete keep a valid store valid; a
  rejected form add changes nothing.
\<close>

theorem store_validity_preserved:
  "store_valid (initialApp m)
   \<and> (store_valid st \<longrightarrow> store_valid (snd (addLocation pf st)))
   \<and> (store_valid st \<longrightarrow> store_valid (deleteLocation i st))
   \<and> (fst (addLocation pf st) \<noteq> None \<longrightarrow> snd (addLocation pf st) = st)"
  using defaults_valid addLocation_valid deleteLocation_valid
  by (auto simp: addLocation_def Let_def split: option.splits)

theorem store_validity_preserved_witness:
  "store_valid (initialApp False)
   \<and> fst (addLocation sample_parseFloat ((initialApp False)\<lparr>newLocation := sample_form\<lparr>lat_input := js ''91''\<rparr>\<rparr>))
       = Some EnterValidCoordinateRange
   \<and> snd (addLocation sample_parseFloat ((initialApp False)\<lparr>newLocation := sample_form\<lparr>lat_input := js ''91''\<rparr>\<rparr>))
       = (initialApp False)\<lparr>newLocation := sample_form\<lparr>lat_input := js ''91''\<rparr>\<rparr>
   \<and> store_valid (snd (addLocation sample_parseFloat ((initialApp False)\<lparr>newLocation := sample_form\<rparr>)))
   \<and> store_valid (deleteLocation 0 (initialApp False))"
proof -
  have v: "store_valid ((initialApp False)\<lparr>newLocation := sample_form\<rparr>)"
    using defaults_valid [of False] by (simp add: store_valid_def)
  have r: "fst (addLocation sample_parseFloat ((initialApp False)\<lparr>newLocation := sample_form\<lparr>lat_input := js ''91''\<rparr>\<rparr>))
       = Some EnterValidCoordinateRange"
    by (simp add: addLocation_def sample_parseFloat_def sample_form_def initialApp_def
        num_val_def nat_of_digits_def js_def trim_def is_js_whitespace_def)
  from store_validity_preserved [of False "(initialApp False)\<lparr>newLocation := sample_form\<rparr>" sample_parseFloat 0]
    store_validity_preserved [of False "(initialApp False)\<lparr>newLocation := sample_form\<lparr>lat_input := js ''91''\<rparr>\<rparr>" sample_parseFloat 0]
    store_validity_preserved [of False "initialApp False" sample_parseFloat 0]
    v r
  show ?thesis by simp
qed

text \<open>Delete removes the element at the index, and nothing when the index is out of range.\<close>

theorem deleteLocation_by_index:
  "mapLocations (deleteLocation idx st) =
     (if 0 \<le> idx \<and> idx < int (length (mapLocations st))
      then take (nat idx) (mapLocations st) @ drop (Suc (nat idx)) (mapLocations st)
      else mapLocations st)"
  by (rule deleteLocation_take_drop)

text \<open>A focus with no other callback pending lasts for 5000 ms and is then cleared.\<close>

theorem single_focus_lasts_for_the_delay:
  assumes "timeouts p = []" and "t < now p + 5000"
  shows "openPopupLocationIndex (app (run_until t (handleLocationClick loc i p))) = Some i
       \<and> targetLocation (app (run_until t (handleLocationClick loc i p))) = Some (lat loc, lng loc)
       \<and> openPopupLocationIndex (app (run_until (now p + 5000) (handleLocationClick loc i p))) = None
       \<and> targetLocation (app (run_until (now p + 5000) (handleLocationClick loc i p))) = None"
  using assms by (simp add: run_until_def handleLocationClick_def clearTarget_def)

theorem single_focus_lasts_for_the_delay_witness:
  "timeouts fresh_page = [] \<and> 4999 < now fresh_page + 5000
   \<and> openPopupLocationIndex (app (run_until 4999 (handleLocationClick home 0 fresh_page))) = Some 0
   \<and> openPopupLocationIndex (app (run_until 5000 (handleLocationClick home 0 fresh_page))) = None"
proof -
  have a: "timeouts fresh_page = []" "4999 < now fresh_page + 5000" "now fresh_page = 0"
    by (simp_all add: fresh_page_def)
  from single_focus_lasts_for_the_delay [OF a(1,2), of home 0] a show ?thesis by simp
qed

text \<open>
  The token \<^verbatim>\<open>dGVzdA\<close> is the base64 of the four characters \<^verbatim>\<open>test\<close>, which is not a
  JSON text: decoding it fails. The token of the JSON string is \<^verbatim>\<open>InRlc3Qi\<close>.
\<close>

theorem bare_text_token_is_rejected:
  "decodeFromUrlSafeBase64 browser (js ''dGVzdA'') = Inl (FailedToDecode SyntaxError)
   \<and> atob (js ''dGVzdA=='') = Inr (js ''test'')
   \<and> encodeToUrlSafeBase64 browser (JStr (js ''test'')) = Inr (js ''InRlc3Qi'')
   \<and> decodeFromUrlSafeBase64 browser (js ''InRlc3Qi'') = Inr (JStr (js ''test''))"
proof -
  have 1: "decodeFromUrlSafeBase64 browser (js ''dGVzdA'') = Inl (FailedToDecode SyntaxError)" by code_simp
  have 2: "atob (js ''dGVzdA=='') = Inr (js ''test'')" by code_simp
  have t: "JSON_stringify (JStr (js ''test'')) = Inr (js ''\"test\"'')"
    by (simp add: JSON_stringify_def QuoteJSONString_def quote_unit_def js_def
        is_high_surrogate_def is_low_surrogate_def)
  have 3: "encodeToUrlSafeBase64 browser (JStr (js ''test'')) = Inr (js ''InRlc3Qi'')"
    by (simp add: encodeToUrlSafeBase64_def encodeToBase64_def t browser_def btoa_def)
      (simp add: base64_encode_def js_def b64char_def replace_all_def)
  have 4: "decodeFromUrlSafeBase64 browser (js ''InRlc3Qi'') = Inr (JStr (js ''test''))" by code_simp
  from 1 2 3 4 show ?thesis by simp
qed

text \<open>A payload that does not decode raises the alert and leaves the store as it was.\<close>

theorem bad_url_payload_keeps_store:
  assumes "searchParams_get (js ''locations'') (location win) = Some p" and "p \<noteq> []"
    and "decodeFromUrlSafeBase64 rt p = Inl e"
  shows "loadLocationsFromUrl rt win st = Some (Some InvalidLocationsDataInUrl, st)"
  using assms by (simp add: loadLocationsFromUrl_def)

theorem bad_url_payload_keeps_store_witness:
  "searchParams_get (js ''locations'') (location (page_url [(js ''locations'', js ''dGVzdA'')])) = Some (js ''dGVzdA'')
   \<and> js ''dGVzdA'' \<noteq> []
   \<and> decodeFromUrlSafeBase64 browser (js ''dGVzdA'') = Inl (FailedToDecode SyntaxError)
   \<and> loadLocationsFromUrl browser (page_url [(js ''locations'', js ''dGVzdA'')]) (initialApp False)
       = Some (Some InvalidLocationsDataInUrl, initialApp False)"
proof -
  have 1: "searchParams_get (js ''locations'') (location (page_url [(js ''locations'', js ''dGVzdA'')])) = Some (js ''dGVzdA'')"
    by (simp add: searchParams_get_def page_url_def)
  have 2: "js ''dGVzdA'' \<noteq> []" by (simp add: js_def)
  have 3: "decodeFromUrlSafeBase64 browser (js ''dGVzdA'') = Inl (FailedToDecode SyntaxError)" by code_simp
  from bad_url_payload_keeps_store [OF 1 2 3, of "initialApp False"] 1 2 3 show ?thesis by simp
qed

end
